theory Spec2Isabelle
  imports Main "HOL-Library.Word"
begin

unbundle bit_operations_syntax

section \<open>The element type \<open>T\<close>\<close>

text \<open>
  \<open>RingBuffer<T, Capacity>\<close> is a template: the copy assignment, the move assignment and
  the move constructor it calls are those of the element type \<open>T\<close>. They are a parameter
  of the model. Each of them may throw (the \<open>noexcept\<close> clauses of \<open>try_push\<close> and
  \<open>try_pop\<close> are conditional on \<open>T\<close>), and each leaves the objects it touched in a state
  of \<open>T\<close>'s choosing:
  \<^item> \<open>copy_assign dst src = (completed, dst')\<close> is \<open>dst = src\<close>; \<open>completed\<close> is false when
    the assignment throws, \<open>dst'\<close> is what \<open>dst\<close> holds afterwards;
  \<^item> \<open>move_assign dst src = (completed, dst', src')\<close> is \<open>dst = std::move(src)\<close>;
  \<^item> \<open>move_construct src = (new, src')\<close> is \<open>T new = std::move(src)\<close>; \<open>new\<close> is \<open>None\<close>
    when the constructor throws.
\<close>

record 'a elem_ops =
  copy_assign :: "'a \<Rightarrow> 'a \<Rightarrow> bool \<times> 'a"
  move_assign :: "'a \<Rightarrow> 'a \<Rightarrow> bool \<times> 'a \<times> 'a"
  move_construct :: "'a \<Rightarrow> 'a option \<times> 'a"


text \<open>
  An element type with value semantics: no operation throws, and the target of a copy or
  a move ends up equal to what the source held. The state a moved-from object is left in
  stays arbitrary.
\<close>

definition value_semantics :: "'a elem_ops \<Rightarrow> bool" where
  "value_semantics ops \<longleftrightarrow>
     (\<forall>d s. copy_assign ops d s = (True, s)) \<and>
     (\<forall>d s. fst (move_assign ops d s) \<and> fst (snd (move_assign ops d s)) = s) \<and>
     (\<forall>s. fst (move_construct ops s) = Some s)"

text \<open>
  An element type whose copies and moves carry the value whenever they complete. Any of
  them may throw instead, and a moved-from object is left in any state.
\<close>

definition carries_value :: "'a elem_ops \<Rightarrow> bool" where
  "carries_value ops \<longleftrightarrow>
     (\<forall>d s. fst (copy_assign ops d s) \<longrightarrow> snd (copy_assign ops d s) = s) \<and>
     (\<forall>d s. fst (move_assign ops d s) \<longrightarrow> fst (snd (move_assign ops d s)) = s) \<and>
     (\<forall>s. fst (move_construct ops s) = None \<or> fst (move_construct ops s) = Some s)"

text \<open>A trivially copyable element type such as \<open>int\<close>: moving is copying.\<close>

definition trivially_copyable :: "'a elem_ops" where
  "trivially_copyable =
     \<lparr>copy_assign = (\<lambda>d s. (True, s)),
      move_assign = (\<lambda>d s. (True, s, s)),
      move_construct = (\<lambda>s. (Some s, s))\<rparr>"

text \<open>
  The test suite's \<open>TestMessage {int id; std::string data;}\<close>, with its implicit
  memberwise operations: copy assignment assigns \<open>id\<close>, then \<open>data\<close>, and the string copy
  throws \<open>std::bad_alloc\<close> when its allocation fails, here for a string longer than
  \<open>limit\<close>. Moves steal the string and leave the source's string empty; they do not throw.
\<close>

definition test_message :: "nat \<Rightarrow> (int \<times> string) elem_ops" where
  "test_message limit =
     \<lparr>copy_assign = (\<lambda>d s. if limit < length (snd s) then (False, (fst s, snd d)) else (True, s)),
      move_assign = (\<lambda>d s. (True, s, (fst s, ''''))),
      move_construct = (\<lambda>s. (Some s, (fst s, '''')))\<rparr>"

text \<open>
  An element type that counts the moves it has left: a pair of a payload and a budget,
  whose move constructor throws once the budget is used up and otherwise hands the payload
  over with the budget decreased.
\<close>

definition move_budget :: "(int \<times> nat) elem_ops" where
  "move_budget =
     \<lparr>copy_assign = (\<lambda>d s. (True, s)),
      move_assign = (\<lambda>d s. (True, s, s)),
      move_construct = (\<lambda>s. if snd s = 0 then (None, s) else (Some (fst s, snd s - 1), s))\<rparr>"

section \<open>The ring buffer\<close>

text \<open>
  \<open>std::size_t\<close> is taken as 64 bits wide; the index arithmetic wraps as the machine's
  does. \<^verbatim>\<open>head_\<close> and \<^verbatim>\<open>tail_\<close> are \<open>std::atomic<std::size_t>\<close>: a load reads the field, a
  store writes it, and the memory order given to them has no counterpart here.
\<close>

type_synonym size_t = "64 word"

text \<open>The \<open>static_assert\<close> on the template parameter \<open>Capacity\<close>.\<close>

definition valid_capacity :: "size_t \<Rightarrow> bool" where
  "valid_capacity Capacity \<longleftrightarrow> (Capacity AND (Capacity - 1)) = 0 \<and> Capacity > 1"

definition kIndexMask :: "size_t \<Rightarrow> size_t" where
  "kIndexMask Capacity = Capacity - 1"

record 'a RingBuffer =
  head :: size_t
  tail :: size_t
  buffer :: "'a list"

text \<open>
  The fields \<open>head\<close>, \<open>tail\<close> and \<open>buffer\<close> are the members \<^verbatim>\<open>head_\<close>, \<^verbatim>\<open>tail_\<close> and
  \<^verbatim>\<open>buffer_\<close>. The defaulted constructor: both indices are 0, and \<open>std::array<T, Capacity>\<close> holds
  \<open>Capacity\<close> default-initialised elements \<open>slots\<close> (indeterminate for \<open>int\<close>).
\<close>

definition RingBuffer_new :: "'a list \<Rightarrow> 'a RingBuffer" where
  "RingBuffer_new slots = \<lparr>head = 0, tail = 0, buffer = slots\<rparr>"

text \<open>
  How a call ends: it returns a value, it lets an exception of \<open>T\<close> escape, or it indexes
  \<open>buffer\<close> out of range, which is undefined behaviour for \<open>std::array::operator[]\<close>.
\<close>

datatype 'r outcome = Returns 'r | Throws | Undefined

text \<open>\<open>try_push(const T& item)\<close>: the outcome and the buffer afterwards.\<close>

definition try_push :: "'a elem_ops \<Rightarrow> size_t \<Rightarrow> 'a \<Rightarrow> 'a RingBuffer \<Rightarrow> bool outcome \<times> 'a RingBuffer" where
  "try_push ops Capacity item rb =
     (let current_tail = tail rb;
          next_tail = (current_tail + 1) AND kIndexMask Capacity
      in if next_tail = head rb then (Returns False, rb)
         else if length (buffer rb) \<le> unat current_tail then (Undefined, rb)
         else
           (case copy_assign ops (buffer rb ! unat current_tail) item of
              (completed, slot) \<Rightarrow>
                let rb' = rb\<lparr>buffer := (buffer rb)[unat current_tail := slot]\<rparr>
                in if completed then (Returns True, rb'\<lparr>tail := next_tail\<rparr>)
                   else (Throws, rb')))"

text \<open>
  \<open>try_push(T&& item)\<close>: the outcome, the buffer afterwards and what the caller's \<open>item\<close>
  holds afterwards.
\<close>

definition try_push_move ::
    "'a elem_ops \<Rightarrow> size_t \<Rightarrow> 'a \<Rightarrow> 'a RingBuffer \<Rightarrow> bool outcome \<times> 'a RingBuffer \<times> 'a" where
  "try_push_move ops Capacity item rb =
     (let current_tail = tail rb;
          next_tail = (current_tail + 1) AND kIndexMask Capacity
      in if next_tail = head rb then (Returns False, rb, item)
         else if length (buffer rb) \<le> unat current_tail then (Undefined, rb, item)
         else
           (case move_assign ops (buffer rb ! unat current_tail) item of
              (completed, slot, item') \<Rightarrow>
                let rb' = rb\<lparr>buffer := (buffer rb)[unat current_tail := slot]\<rparr>
                in if completed then (Returns True, rb'\<lparr>tail := next_tail\<rparr>, item')
                   else (Throws, rb', item')))"

text \<open>
  \<open>try_pop()\<close>. The local \<open>item\<close> is move-constructed from the slot, the new head is
  stored, and \<open>return item;\<close> move-constructs the value held by the returned
  \<open>std::optional<T>\<close> from the local.
\<close>

definition try_pop :: "'a elem_ops \<Rightarrow> size_t \<Rightarrow> 'a RingBuffer \<Rightarrow> 'a option outcome \<times> 'a RingBuffer" where
  "try_pop ops Capacity rb =
     (let current_head = head rb
      in if current_head = tail rb then (Returns None, rb)
         else if length (buffer rb) \<le> unat current_head then (Undefined, rb)
         else
           (case move_construct ops (buffer rb ! unat current_head) of
              (None, slot) \<Rightarrow> (Throws, rb\<lparr>buffer := (buffer rb)[unat current_head := slot]\<rparr>)
            | (Some item, slot) \<Rightarrow>
                let rb' = rb\<lparr>buffer := (buffer rb)[unat current_head := slot],
                             head := (current_head + 1) AND kIndexMask Capacity\<rparr>
                in (case fst (move_construct ops item) of
                      None \<Rightarrow> (Throws, rb')
                    | Some result \<Rightarrow> (Returns (Some result), rb'))))"

definition empty_buf :: "'a RingBuffer \<Rightarrow> bool" where
  "empty_buf rb \<longleftrightarrow> head rb = tail rb"

definition full :: "size_t \<Rightarrow> 'a RingBuffer \<Rightarrow> bool" where
  "full Capacity rb \<longleftrightarrow>
     (let next_tail = (tail rb + 1) AND kIndexMask Capacity in next_tail = head rb)"

definition size_buf :: "size_t \<Rightarrow> 'a RingBuffer \<Rightarrow> size_t" where
  "size_buf Capacity rb = (let h = head rb; t = tail rb in (t - h) AND kIndexMask Capacity)"

definition capacity :: "size_t \<Rightarrow> size_t" where
  "capacity Capacity = Capacity - 1"

definition buffer_size :: "size_t \<Rightarrow> size_t" where
  "buffer_size Capacity = Capacity"

section \<open>Sequences of calls\<close>

datatype 'a call = Push 'a | PushMove 'a | Pop

datatype 'a response = PushResult "bool outcome" | PopResult "'a option outcome"

fun step :: "'a elem_ops \<Rightarrow> size_t \<Rightarrow> 'a call \<Rightarrow> 'a RingBuffer \<Rightarrow> 'a response \<times> 'a RingBuffer" where
  "step ops Capacity (Push x) rb =
     (case try_push ops Capacity x rb of (r, rb') \<Rightarrow> (PushResult r, rb'))"
| "step ops Capacity (PushMove x) rb =
     (case try_push_move ops Capacity x rb of (r, rb', item') \<Rightarrow> (PushResult r, rb'))"
| "step ops Capacity Pop rb =
     (case try_pop ops Capacity rb of (r, rb') \<Rightarrow> (PopResult r, rb'))"

text \<open>The calls are made one after the other; \<open>run\<close> gives each call's response and the final buffer.\<close>

fun run :: "'a elem_ops \<Rightarrow> size_t \<Rightarrow> 'a call list \<Rightarrow> 'a RingBuffer \<Rightarrow> 'a response list \<times> 'a RingBuffer" where
  "run ops Capacity [] rb = ([], rb)"
| "run ops Capacity (c # cs) rb =
     (case step ops Capacity c rb of (r, rb') \<Rightarrow>
        (case run ops Capacity cs rb' of (rs, rb'') \<Rightarrow> (r # rs, rb'')))"

text \<open>The value a call got accepted, if the call is a push that returned \<open>true\<close>.\<close>

fun accepted1 :: "'a call \<Rightarrow> 'a response \<Rightarrow> 'a list" where
  "accepted1 (Push x) (PushResult (Returns True)) = [x]"
| "accepted1 (PushMove x) (PushResult (Returns True)) = [x]"
| "accepted1 _ _ = []"

definition accepted :: "'a call list \<Rightarrow> 'a response list \<Rightarrow> 'a list" where
  "accepted cs rs = concat (map2 accepted1 cs rs)"

text \<open>The value a call returned, if the call is a pop that returned one.\<close>

fun popped1 :: "'a response \<Rightarrow> 'a list" where
  "popped1 (PopResult (Returns (Some y))) = [y]"
| "popped1 _ = []"

definition popped :: "'a response list \<Rightarrow> 'a list" where
  "popped rs = concat (map popped1 rs)"

text \<open>
  The live elements, oldest first: the slots from \<open>head\<close> up to \<open>tail\<close>, wrapping at
  \<open>Capacity\<close>.
\<close>

definition live :: "size_t \<Rightarrow> 'a RingBuffer \<Rightarrow> 'a list" where
  "live Capacity rb =
     map (\<lambda>i. buffer rb ! ((unat (head rb) + i) mod unat Capacity)) [0..<unat (size_buf Capacity rb)]"

text \<open>The indices are within the array, and the array has \<open>Capacity\<close> slots.\<close>

definition well_formed :: "size_t \<Rightarrow> 'a RingBuffer \<Rightarrow> bool" where
  "well_formed Capacity rb \<longleftrightarrow>
     unat (head rb) < unat Capacity \<and> unat (tail rb) < unat Capacity \<and>
     length (buffer rb) = unat Capacity"

text \<open>\<open>cycles n k v\<close>: \<open>n\<close> rounds of \<open>k\<close> pushes of an increasing counter starting at \<open>v\<close>, each round followed by \<open>k\<close> pops.\<close>

fun cycles :: "nat \<Rightarrow> nat \<Rightarrow> int \<Rightarrow> int call list" where
  "cycles 0 k v = []"
| "cycles (Suc n) k v =
     map (\<lambda>i. PushMove (v + int i)) [0..<k] @ replicate k Pop @ cycles n k (v + int k)"

section \<open>The two threads, step by step\<close>

text \<open>
  Between two accesses to the shared members a thread can be overtaken by the other one.
  A call is cut at these accesses, and the state records where each thread stands in its
  call, with the locals it holds. The producer: \<open>PLoadedTail\<close> after
  \<^verbatim>\<open>tail_.load\<close>, \<open>PChecked\<close> after \<^verbatim>\<open>head_.load\<close> found room, \<open>PWritten\<close> after the
  assignment into the slot; the flag says whether the move overload is running. The
  consumer: \<open>CLoadedHead\<close> after \<^verbatim>\<open>head_.load\<close>, \<open>CChecked\<close> after \<^verbatim>\<open>tail_.load\<close> found
  an element, \<open>CMoved\<close> after the move out of the slot. \<open>sent\<close> collects the values of the
  pushes that returned \<open>true\<close>, \<open>received\<close> the values the pops returned, and
  \<open>out_of_range\<close> records an access outside the array.
\<close>

datatype 'a producer_pc =
    PIdle
  | PLoadedTail bool 'a size_t
  | PChecked bool 'a size_t size_t
  | PWritten 'a size_t

datatype 'a consumer_pc =
    CIdle
  | CLoadedHead size_t
  | CChecked size_t
  | CMoved 'a size_t

record 'a threads =
  shared :: "'a RingBuffer"
  producer :: "'a producer_pc"
  consumer :: "'a consumer_pc"
  sent :: "'a list"
  received :: "'a list"
  out_of_range :: bool

definition threads_new :: "'a list \<Rightarrow> 'a threads" where
  "threads_new slots =
     \<lparr>shared = RingBuffer_new slots, producer = PIdle, consumer = CIdle,
      sent = [], received = [], out_of_range = False\<rparr>"

text \<open>
  One step of the producer. When it is idle, the step starts \<open>try_push(item)\<close>, by copy
  or by move; otherwise it continues the call that is running, and \<open>by_move\<close> and \<open>item\<close>
  are not looked at. The last step stores the new tail and returns \<open>true\<close>.
\<close>

definition producer_step :: "'a elem_ops \<Rightarrow> size_t \<Rightarrow> bool \<Rightarrow> 'a \<Rightarrow> 'a threads \<Rightarrow> 'a threads" where
  "producer_step ops Capacity by_move item s =
     (case producer s of
        PIdle \<Rightarrow> s\<lparr>producer := PLoadedTail by_move item (tail (shared s))\<rparr>
      | PLoadedTail m x current_tail \<Rightarrow>
          (let next_tail = (current_tail + 1) AND kIndexMask Capacity
           in if next_tail = head (shared s) then s\<lparr>producer := PIdle\<rparr>
              else s\<lparr>producer := PChecked m x current_tail next_tail\<rparr>)
      | PChecked m x current_tail next_tail \<Rightarrow>
          if length (buffer (shared s)) \<le> unat current_tail
          then s\<lparr>producer := PIdle, out_of_range := True\<rparr>
          else
            (case (if m then (case move_assign ops (buffer (shared s) ! unat current_tail) x of
                                (completed, slot, item') \<Rightarrow> (completed, slot))
                   else copy_assign ops (buffer (shared s) ! unat current_tail) x) of
               (completed, slot) \<Rightarrow>
                 s\<lparr>shared := (shared s)\<lparr>buffer := (buffer (shared s))[unat current_tail := slot]\<rparr>,
                   producer := (if completed then PWritten x next_tail else PIdle)\<rparr>)
      | PWritten x next_tail \<Rightarrow>
          s\<lparr>shared := (shared s)\<lparr>tail := next_tail\<rparr>, producer := PIdle, sent := sent s @ [x]\<rparr>)"

text \<open>
  One step of the consumer. The last step stores the new head and returns the local
  \<open>item\<close>, which nothing shared takes part in.
\<close>

definition consumer_step :: "'a elem_ops \<Rightarrow> size_t \<Rightarrow> 'a threads \<Rightarrow> 'a threads" where
  "consumer_step ops Capacity s =
     (case consumer s of
        CIdle \<Rightarrow> s\<lparr>consumer := CLoadedHead (head (shared s))\<rparr>
      | CLoadedHead current_head \<Rightarrow>
          if current_head = tail (shared s) then s\<lparr>consumer := CIdle\<rparr>
          else s\<lparr>consumer := CChecked current_head\<rparr>
      | CChecked current_head \<Rightarrow>
          if length (buffer (shared s)) \<le> unat current_head
          then s\<lparr>consumer := CIdle, out_of_range := True\<rparr>
          else
            (case move_construct ops (buffer (shared s) ! unat current_head) of
               (new, slot) \<Rightarrow>
                 s\<lparr>shared := (shared s)\<lparr>buffer := (buffer (shared s))[unat current_head := slot]\<rparr>,
                   consumer := (case new of None \<Rightarrow> CIdle | Some item \<Rightarrow> CMoved item current_head)\<rparr>)
      | CMoved item current_head \<Rightarrow>
          s\<lparr>shared := (shared s)\<lparr>head := (current_head + 1) AND kIndexMask Capacity\<rparr>,
            consumer := CIdle,
            received := (case fst (move_construct ops item) of
                           None \<Rightarrow> received s
                         | Some result \<Rightarrow> received s @ [result])\<rparr>)"

text \<open>
  A schedule says which thread takes the next step.
\<close>

datatype 'a tick = Produce bool 'a | Consume

fun interleave :: "'a elem_ops \<Rightarrow> size_t \<Rightarrow> 'a tick list \<Rightarrow> 'a threads \<Rightarrow> 'a threads" where
  "interleave ops Capacity [] s = s"
| "interleave ops Capacity (Produce by_move item # ts) s =
     interleave ops Capacity ts (producer_step ops Capacity by_move item s)"
| "interleave ops Capacity (Consume # ts) s =
     interleave ops Capacity ts (consumer_step ops Capacity s)"

text \<open>
  A whole call of one thread, not overtaken: its steps up to the one that leaves the
  thread idle again.
\<close>

definition producer_call :: "'a elem_ops \<Rightarrow> size_t \<Rightarrow> bool \<Rightarrow> 'a \<Rightarrow> 'a threads \<Rightarrow> 'a threads" where
  "producer_call ops Capacity by_move item s =
     (let s2 = producer_step ops Capacity by_move item (producer_step ops Capacity by_move item s)
      in if producer s2 = PIdle then s2
         else let s3 = producer_step ops Capacity by_move item s2
              in if producer s3 = PIdle then s3 else producer_step ops Capacity by_move item s3)"

definition consumer_call :: "'a elem_ops \<Rightarrow> size_t \<Rightarrow> 'a threads \<Rightarrow> 'a threads" where
  "consumer_call ops Capacity s =
     (let s2 = consumer_step ops Capacity (consumer_step ops Capacity s)
      in if consumer s2 = CIdle then s2
         else let s3 = consumer_step ops Capacity s2
              in if consumer s3 = CIdle then s3 else consumer_step ops Capacity s3)"

text \<open>
  The elements on their way from producer to consumer, oldest first: the live elements,
  the oldest of them in the consumer's local once it has been moved out of its slot.
\<close>

definition in_flight :: "size_t \<Rightarrow> 'a consumer_pc \<Rightarrow> 'a RingBuffer \<Rightarrow> 'a list" where
  "in_flight Capacity c rb =
     (case c of
        CMoved item current_head \<Rightarrow> item # tl (live Capacity rb)
      | _ \<Rightarrow> live Capacity rb)"

text \<open>
  What each thread knows while it is inside a call: the index it owns is the one it
  loaded, and the room (or the element) it found is still there.
\<close>

definition producer_ok :: "size_t \<Rightarrow> 'a producer_pc \<Rightarrow> 'a RingBuffer \<Rightarrow> bool" where
  "producer_ok Capacity p rb =
     (case p of
        PIdle \<Rightarrow> True
      | PLoadedTail m x current_tail \<Rightarrow> current_tail = tail rb
      | PChecked m x current_tail next_tail \<Rightarrow>
          current_tail = tail rb \<and> next_tail = (current_tail + 1) AND kIndexMask Capacity \<and>
          next_tail \<noteq> head rb
      | PWritten x next_tail \<Rightarrow>
          next_tail = (tail rb + 1) AND kIndexMask Capacity \<and> next_tail \<noteq> head rb \<and>
          buffer rb ! unat (tail rb) = x)"

definition consumer_ok :: "'a consumer_pc \<Rightarrow> 'a RingBuffer \<Rightarrow> bool" where
  "consumer_ok c rb =
     (case c of
        CIdle \<Rightarrow> True
      | CLoadedHead current_head \<Rightarrow> current_head = head rb
      | CChecked current_head \<Rightarrow> current_head = head rb \<and> current_head \<noteq> tail rb
      | CMoved item current_head \<Rightarrow> current_head = head rb \<and> current_head \<noteq> tail rb)"

definition threads_inv :: "size_t \<Rightarrow> 'a threads \<Rightarrow> bool" where
  "threads_inv Capacity s \<longleftrightarrow>
     well_formed Capacity (shared s) \<and> \<not> out_of_range s \<and>
     producer_ok Capacity (producer s) (shared s) \<and> consumer_ok (consumer s) (shared s) \<and>
     sent s = received s @ in_flight Capacity (consumer s) (shared s)"

text \<open>
  Two states used as examples. \<open>wrapped_example\<close>: on eight slots, seven values are pushed
  and popped, then two more are pushed, so that the tail has wrapped past the end of the
  array and lies below the head. \<open>full_example\<close>: the smallest buffer, two slots, after one
  push.
\<close>

definition wrapped_example :: "int RingBuffer" where
  "wrapped_example =
     snd (run trivially_copyable 8 (cycles 1 7 0 @ [PushMove 100, Push 101]) (RingBuffer_new (replicate 8 0)))"

definition full_example :: "int RingBuffer" where
  "full_example = snd (run trivially_copyable 2 [Push 42] (RingBuffer_new [0, 0]))"

text \<open>
  Calls with \<open>TestMessage\<close> elements, for a buffer of four slots and strings that may
  have three characters: the two copies of a longer string throw, the other pushes are
  accepted.
\<close>

definition throwing_push_example :: "(int \<times> string) call list" where
  "throwing_push_example =
     [Push (1, ''ab''), Push (7, ''hello''), PushMove (2, ''cd''), Pop, Push (8, ''world''), Pop, Pop]"

text \<open>
  A schedule on four slots: 1 is pushed by copy; then a push of 2 by move and a pop run
  step for step in turn, the consumer moving 1 out of its slot between the producer's
  write of 2 and the store of the new tail; then 2 is popped.
\<close>

definition overlapping_example :: "int tick list" where
  "overlapping_example =
     replicate 4 (Produce False 1) @
     [Produce True 2, Consume, Produce True 2, Consume, Produce True 2, Consume, Produce True 2, Consume] @
     replicate 4 Consume"

section \<open>Index arithmetic\<close>

text \<open>A capacity accepted by the \<open>static_assert\<close> is a power of two, so masking with \<open>kIndexMask\<close> is the remainder modulo \<open>Capacity\<close>.\<close>

lemma nat_pow2: "0 < n \<Longrightarrow> n AND (n - 1) = (0::nat) \<Longrightarrow> \<exists>k. n = 2 ^ k"
proof (induction n rule: less_induct)
  case (less n)
  have rec: "n AND (n - 1) = of_bool (odd n \<and> odd (n - 1)) + 2 * ((n div 2) AND ((n - 1) div 2))"
    by (rule and_rec)
  show ?case
  proof (cases "even n")
    case True
    then obtain m where m: "n = 2 * m" by (elim evenE)
    with less.prems have m0: "0 < m" by simp
    have "(n - 1) div 2 = m - 1" using m m0 by (cases m) simp_all
    with rec True m less.prems(2) have "m AND (m - 1) = 0" by simp
    moreover have "m < n" using m m0 by simp
    ultimately obtain k where "m = 2 ^ k" using less.IH m0 by blast
    with m have "n = 2 ^ Suc k" by simp
    then show ?thesis by blast
  next
    case False
    then obtain m where m: "n = 2 * m + 1" by (elim oddE)
    with rec less.prems(2) have "m = 0" by simp
    with m have "n = 2 ^ 0" by simp
    then show ?thesis by blast
  qed
qed

lemma valid_capacity_pow2:
  assumes "valid_capacity C"
  shows "\<exists>k. 0 < k \<and> k < 64 \<and> C = 2 ^ k \<and> unat C = 2 ^ k"
proof -
  from assms have z: "C AND (C - 1) = 0" and g: "1 < C" by (simp_all add: valid_capacity_def)
  from g have nz: "C \<noteq> 0" by auto
  have "unat (C AND (C - 1)) = unat C AND (unat C - 1)"
    using nz by (simp add: unsigned_and_eq unat_minus_one)
  with z have "unat C AND (unat C - 1) = 0" by simp
  moreover have "0 < unat C" using nz by (simp add: unat_gt_0)
  ultimately obtain k where k: "unat C = 2 ^ k" using nat_pow2 by blast
  have "unat C < 2 ^ LENGTH(64)" by (rule unsigned_less)
  with k have "(2::nat) ^ k < 2 ^ 64" by simp
  then have k64: "k < 64" by (rule power_less_imp_less_exp [rotated]) simp
  have "C = word_of_nat (unat C)" by simp
  also have "\<dots> = 2 ^ k" by (simp only: k) simp
  finally have C: "C = 2 ^ k" .
  have "k \<noteq> 0"
  proof
    assume "k = 0"
    with C have "C = 1" by simp
    with g show False by simp
  qed
  with k64 C k show ?thesis by blast
qed

lemma valid_capacity_gt1: "valid_capacity C \<Longrightarrow> 1 < unat C"
proof -
  assume "valid_capacity C"
  then obtain k where k: "0 < k" "unat C = 2 ^ k" using valid_capacity_pow2 by blast
  then have "(2::nat) ^ 1 \<le> 2 ^ k" by (intro power_increasing) simp_all
  with k show ?thesis by simp
qed

lemma valid_capacity_dvd: "valid_capacity C \<Longrightarrow> unat C dvd 2 ^ 64"
proof -
  assume "valid_capacity C"
  then obtain k where k: "k < 64" "unat C = 2 ^ k" using valid_capacity_pow2 by blast
  then have "(2::nat) ^ k dvd 2 ^ 64" by (intro le_imp_power_dvd) simp
  with k show ?thesis by simp
qed

lemma and_kIndexMask:
  assumes "valid_capacity C"
  shows "unat (x AND kIndexMask C) = unat x mod unat C"
proof -
  from valid_capacity_pow2 [OF assms] obtain k where k: "C = 2 ^ k" "unat C = 2 ^ k" by blast
  have "kIndexMask C = mask k" by (simp add: kIndexMask_def k mask_eq_exp_minus_1)
  then have "x AND kIndexMask C = take_bit k x" by (simp add: take_bit_eq_mask)
  then have "unat (x AND kIndexMask C) = take_bit k (unat x)"
    by (simp only: unsigned_take_bit_eq)
  then have "unat (x AND kIndexMask C) = unat x mod 2 ^ k"
    by (simp only: take_bit_eq_mod)
  with k(2) show ?thesis by simp
qed

lemma next_index_unat:
  assumes "valid_capacity C"
  shows "unat ((x + 1) AND kIndexMask C) = (unat x + 1) mod unat C"
proof -
  have "unat (x + 1) = (unat x + 1) mod 2 ^ 64"
    by (simp add: unat_word_ariths)
  then have "unat (x + 1) mod unat C = (unat x + 1) mod unat C"
    using valid_capacity_dvd [OF assms] by (simp only: mod_mod_cancel)
  then show ?thesis by (simp only: and_kIndexMask [OF assms])
qed

lemma size_unat:
  assumes v: "valid_capacity C" and h: "unat h < unat C"
  shows "unat ((t - h) AND kIndexMask C) = (unat t + unat C - unat h) mod unat C"
proof -
  from valid_capacity_dvd [OF v] obtain q where q: "(2::nat) ^ 64 = unat C * q" by (elim dvdE)
  have q0: "0 < q" using q by (cases q) simp_all
  have "unat (t - h) mod unat C = (unat t + unat C - unat h) mod unat C"
  proof (cases "unat h \<le> unat t")
    case True
    then have "unat (t - h) = unat t - unat h" by (simp only: unat_sub_if' if_True)
    moreover have "unat t + unat C - unat h = (unat t - unat h) + unat C" using True by simp
    ultimately show ?thesis by simp
  next
    case False
    then have "unat (t - h) = unat t + 2 ^ LENGTH(64) - unat h" by (simp only: unat_sub_if' if_False)
    also have "\<dots> = unat t + 2 ^ 64 - unat h" by simp
    also have "\<dots> = unat t + unat C * q - unat h" by (simp only: q)
    also have "\<dots> = (unat t + unat C - unat h) + unat C * (q - 1)"
    proof -
      obtain q' where q': "q = Suc q'" using q0 by (cases q) simp_all
      show ?thesis using h by (simp add: q')
    qed
    finally show ?thesis by simp
  qed
  then show ?thesis by (simp only: and_kIndexMask [OF v])
qed

text \<open>The distance from \<open>h\<close> to \<open>t\<close> on a ring of \<open>N\<close> slots.\<close>

lemma dist_mod: "h < N \<Longrightarrow> t < N \<Longrightarrow> (t + N - h) mod N = (if h \<le> t then t - h else t + N - h)" for h t N :: nat
  by (auto simp: le_mod_geq)

lemma succ_mod: "t < N \<Longrightarrow> (t + 1) mod N = (if t + 1 = N then 0 else t + 1)" for t N :: nat
  by auto

lemma succ_mod_less: "t < N \<Longrightarrow> (t + 1) mod N < N" for t N :: nat
  by simp


lemma dist_less: "h < N \<Longrightarrow> t < N \<Longrightarrow> (t + N - h) mod N < N" for h t N :: nat
  by simp

lemma mod2: "x < 2 * N \<Longrightarrow> x mod N = (if x < N then x else x - N)" for x N :: nat
  by (simp add: le_mod_geq)


lemma dist_push:
  fixes h t N :: nat
  assumes "h < N" "t < N" "(t + 1) mod N \<noteq> h"
  shows "((t + 1) mod N + N - h) mod N = (t + N - h) mod N + 1"
proof -
  have 1: "(t + N - h) mod N = (if h \<le> t then t - h else t + N - h)" by (rule dist_mod [OF assms(1,2)])
  have 2: "(t + 1) mod N = (if t + 1 = N then 0 else t + 1)" by (rule succ_mod [OF assms(2)])
  show ?thesis
  proof (cases "t + 1 = N")
    case True
    with 2 have e: "(t + 1) mod N = 0" by simp
    with assms(3) have "0 < h" by simp
    then have "(0 + N - h) mod N = N - h" using assms(1) by simp
    with True assms show ?thesis unfolding e 1 by auto
  next
    case False
    with 2 have e: "(t + 1) mod N = t + 1" by simp
    have "t + 1 + N - h < 2 * N" using assms False by auto
    then have "(t + 1 + N - h) mod N = (if t + 1 + N - h < N then t + 1 + N - h else t + 1 - h)"
      by (simp add: mod2)
    then show ?thesis using assms False unfolding e 1 by (auto split: if_splits)
  qed
qed

lemma dist_pop:
  fixes h t N :: nat
  assumes "h < N" "t < N" "h \<noteq> t"
  shows "(t + N - (h + 1) mod N) mod N + 1 = (t + N - h) mod N"
proof -
  have 1: "(t + N - h) mod N = (if h \<le> t then t - h else t + N - h)" by (rule dist_mod [OF assms(1,2)])
  have 2: "(h + 1) mod N = (if h + 1 = N then 0 else h + 1)" by (rule succ_mod [OF assms(1)])
  show ?thesis
  proof (cases "h + 1 = N")
    case True
    with 2 have e: "(h + 1) mod N = 0" by simp
    have "(t + N - 0) mod N = t" using assms(2) by simp
    with True assms show ?thesis unfolding e 1 by auto
  next
    case False
    with 2 have e: "(h + 1) mod N = h + 1" by simp
    have "t + N - (h + 1) < 2 * N" using assms by auto
    then have "(t + N - (h + 1)) mod N = (if t + N - (h + 1) < N then t + N - (h + 1) else t - (h + 1))"
      by (simp add: mod2)
    then show ?thesis using assms False unfolding e 1 by (auto split: if_splits)
  qed
qed

lemma dist_end:
  fixes h t N :: nat
  assumes "h < N" "t < N"
  shows "(h + (t + N - h) mod N) mod N = t"
  unfolding dist_mod [OF assms] using assms by (auto simp: le_mod_geq)

lemma dist_inside:
  fixes h t N i :: nat
  assumes "h < N" "t < N" "i < (t + N - h) mod N"
  shows "(h + i) mod N \<noteq> t"
proof -
  have 1: "(t + N - h) mod N = (if h \<le> t then t - h else t + N - h)" by (rule dist_mod [OF assms(1,2)])
  have "h + i < 2 * N" using assms 1 by (auto split: if_splits)
  then have "(h + i) mod N = (if h + i < N then h + i else h + i - N)" by (rule mod2)
  then show ?thesis using assms unfolding 1 by (auto split: if_splits)
qed

lemma dist_shift:
  fixes h N i :: nat
  assumes "h < N"
  shows "((h + 1) mod N + i) mod N = (h + Suc i) mod N"
proof -
  have "((h + 1) mod N + i) mod N = ((h + 1) + i) mod N" by (rule mod_add_left_eq)
  then show ?thesis by simp
qed

lemma dist_int:
  fixes h t N :: nat
  assumes "h < N" "t < N"
  shows "int ((t + N - h) mod N) = (int t - int h) mod int N"
proof -
  have "int ((t + N - h) mod N) = (int (t + N - h)) mod int N" by (simp add: zmod_int)
  also have "int (t + N - h) = (int t - int h) + int N" using assms by simp
  finally show ?thesis by simp
qed

section \<open>The operations keep the buffer well formed\<close>

lemma full_iff:
  "valid_capacity C \<Longrightarrow> full C rb \<longleftrightarrow> (unat (tail rb) + 1) mod unat C = unat (head rb)"
  by (simp add: full_def Let_def word_unat_eq_iff next_index_unat)

lemma empty_iff: "empty_buf rb \<longleftrightarrow> unat (head rb) = unat (tail rb)"
  by (simp add: empty_buf_def word_unat_eq_iff)

lemma size_nat:
  "valid_capacity C \<Longrightarrow> well_formed C rb \<Longrightarrow>
   unat (size_buf C rb) = (unat (tail rb) + unat C - unat (head rb)) mod unat C"
  by (simp add: size_buf_def Let_def well_formed_def size_unat)

lemma wf_new: "length slots = unat C \<Longrightarrow> valid_capacity C \<Longrightarrow> well_formed C (RingBuffer_new slots)"
  using valid_capacity_gt1 [of C] by (simp add: well_formed_def RingBuffer_new_def)

lemma next_index_less: "valid_capacity C \<Longrightarrow> unat ((x + 1) AND kIndexMask C) < unat C"
  using valid_capacity_gt1 [of C] by (simp add: next_index_unat)

lemma try_push_wf: "valid_capacity C \<Longrightarrow> well_formed C rb \<Longrightarrow> well_formed C (snd (try_push ops C x rb))"
  by (simp add: try_push_def Let_def well_formed_def next_index_less split: prod.split)

lemma try_push_move_wf: "valid_capacity C \<Longrightarrow> well_formed C rb \<Longrightarrow> well_formed C (fst (snd (try_push_move ops C x rb)))"
  by (simp add: try_push_move_def Let_def well_formed_def next_index_less split: prod.split)

lemma try_pop_wf: "valid_capacity C \<Longrightarrow> well_formed C rb \<Longrightarrow> well_formed C (snd (try_pop ops C rb))"
  by (simp add: try_pop_def Let_def well_formed_def next_index_less split: prod.split option.split)

lemma step_wf: "valid_capacity C \<Longrightarrow> well_formed C rb \<Longrightarrow> well_formed C (snd (step ops C c rb))"
  using try_push_wf [of C rb ops] try_push_move_wf [of C rb ops] try_pop_wf [of C rb ops]
  by (cases c) (simp_all add: split_beta)

lemma run_wf: "valid_capacity C \<Longrightarrow> well_formed C rb \<Longrightarrow> well_formed C (snd (run ops C cs rb))"
proof (induction cs arbitrary: rb)
  case Nil
  then show ?case by simp
next
  case (Cons c cs)
  from Cons.prems have "well_formed C (snd (step ops C c rb))" by (rule step_wf)
  then have "well_formed C (snd (run ops C cs (snd (step ops C c rb))))" by (rule Cons.IH [OF Cons.prems(1)])
  then show ?case by (simp add: split_beta)
qed




lemma try_push_vs:
  "value_semantics ops \<Longrightarrow> well_formed C rb \<Longrightarrow>
   try_push ops C x rb =
     (if full C rb then (Returns False, rb)
      else (Returns True, rb\<lparr>buffer := (buffer rb)[unat (tail rb) := x],
                              tail := (tail rb + 1) AND kIndexMask C\<rparr>))"
  by (simp add: try_push_def full_def Let_def well_formed_def value_semantics_def)

lemma try_push_move_vs:
  "value_semantics ops \<Longrightarrow> well_formed C rb \<Longrightarrow>
   (fst (try_push_move ops C x rb), fst (snd (try_push_move ops C x rb))) =
     (if full C rb then (Returns False, rb)
      else (Returns True, rb\<lparr>buffer := (buffer rb)[unat (tail rb) := x],
                              tail := (tail rb + 1) AND kIndexMask C\<rparr>))"
  by (simp add: try_push_move_def full_def Let_def well_formed_def value_semantics_def split: prod.split)
    (metis fst_conv snd_conv)

lemma try_pop_vs:
  "value_semantics ops \<Longrightarrow> well_formed C rb \<Longrightarrow>
   try_pop ops C rb =
     (if empty_buf rb then (Returns None, rb)
      else (Returns (Some (buffer rb ! unat (head rb))),
            rb\<lparr>buffer := (buffer rb)[unat (head rb) := snd (move_construct ops (buffer rb ! unat (head rb)))],
               head := (head rb + 1) AND kIndexMask C\<rparr>))"
  by (simp add: try_pop_def empty_buf_def Let_def well_formed_def value_semantics_def split: prod.split option.split)
    (metis fst_conv snd_conv option.inject option.distinct(1))

section \<open>The live elements\<close>

lemma live_push:
  assumes v: "valid_capacity C" and w: "well_formed C rb" and nf: "\<not> full C rb"
  shows "live C (rb\<lparr>buffer := (buffer rb)[unat (tail rb) := x],
                      tail := (tail rb + 1) AND kIndexMask C\<rparr>) = live C rb @ [x]"
    (is "live C ?rb' = _")
proof -
  let ?N = "unat C" and ?h = "unat (head rb)" and ?t = "unat (tail rb)"
  let ?n = "(?t + ?N - ?h) mod ?N"
  from w have h: "?h < ?N" and t: "?t < ?N" and len: "length (buffer rb) = ?N"
    by (simp_all add: well_formed_def)
  from nf v have nf': "(?t + 1) mod ?N \<noteq> ?h" by (simp add: full_iff)
  have w': "well_formed C ?rb'" using w v by (simp add: well_formed_def next_index_less)
  have n: "unat (size_buf C rb) = ?n" by (rule size_nat [OF v w])
  have "unat (size_buf C ?rb') = ((?t + 1) mod ?N + ?N - ?h) mod ?N"
    by (simp add: size_nat [OF v w'] next_index_unat [OF v])
  also have "\<dots> = ?n + 1" by (rule dist_push [OF h t nf'])
  finally have n': "unat (size_buf C ?rb') = Suc ?n" by simp
  have old: "(buffer rb)[?t := x] ! ((?h + i) mod ?N) = buffer rb ! ((?h + i) mod ?N)" if "i < ?n" for i
    using dist_inside [OF h t that] by simp
  have new: "(buffer rb)[?t := x] ! ((?h + ?n) mod ?N) = x"
    using t len by (simp add: dist_end [OF h t])
  have "live C ?rb' = map (\<lambda>i. (buffer rb)[?t := x] ! ((?h + i) mod ?N)) [0..<Suc ?n]"
    by (simp add: live_def n')
  also have "\<dots> = map (\<lambda>i. (buffer rb)[?t := x] ! ((?h + i) mod ?N)) [0..<?n] @ [x]"
    using new by simp
  also have "map (\<lambda>i. (buffer rb)[?t := x] ! ((?h + i) mod ?N)) [0..<?n] = live C rb"
    unfolding live_def n by (rule map_cong) (simp_all add: old)
  finally show ?thesis .
qed

lemma live_pop:
  assumes v: "valid_capacity C" and w: "well_formed C rb" and ne: "\<not> empty_buf rb"
  shows "live C rb = buffer rb ! unat (head rb) #
           live C (rb\<lparr>buffer := (buffer rb)[unat (head rb) := r],
                      head := (head rb + 1) AND kIndexMask C\<rparr>)"
    (is "_ = _ # live C ?rb'")
proof -
  let ?N = "unat C" and ?h = "unat (head rb)" and ?t = "unat (tail rb)"
  let ?n' = "(?t + ?N - (?h + 1) mod ?N) mod ?N"
  from w have h: "?h < ?N" and t: "?t < ?N" and len: "length (buffer rb) = ?N"
    by (simp_all add: well_formed_def)
  from ne have ne': "?h \<noteq> ?t" by (simp add: empty_iff)
  have w': "well_formed C ?rb'" using w v by (simp add: well_formed_def next_index_less)
  have n': "unat (size_buf C ?rb') = ?n'"
    by (simp add: size_nat [OF v w'] next_index_unat [OF v])
  have "unat (size_buf C rb) = (?t + ?N - ?h) mod ?N" by (rule size_nat [OF v w])
  also have "\<dots> = Suc ?n'" using dist_pop [OF h t ne'] by simp
  finally have n: "unat (size_buf C rb) = Suc ?n'" .
  have h': "(?h + 1) mod ?N < ?N" using h by simp
  have "Suc ?n' = (?t + ?N - ?h) mod ?N" using dist_pop [OF h t ne'] by simp
  also have "\<dots> < ?N" by (rule dist_less [OF h t])
  finally have bound: "Suc ?n' < ?N" .
  have shift: "(buffer rb)[?h := r] ! (((?h + 1) mod ?N + i) mod ?N) = buffer rb ! ((?h + Suc i) mod ?N)"
    if "i < ?n'" for i
  proof -
    have ds: "((?h + 1) mod ?N + i) mod ?N = (?h + Suc i) mod ?N" by (rule dist_shift [OF h])
    have "?h + Suc i < 2 * ?N" using that bound h by simp
    then have "(?h + Suc i) mod ?N = (if ?h + Suc i < ?N then ?h + Suc i else ?h + Suc i - ?N)"
      by (rule mod2)
    then have "(?h + Suc i) mod ?N \<noteq> ?h" using that bound by (auto split: if_splits)
    then show ?thesis unfolding ds by simp
  qed
  have "live C rb = map (\<lambda>i. buffer rb ! ((?h + i) mod ?N)) [0..<Suc ?n']"
    by (simp only: live_def n)
  also have "\<dots> = buffer rb ! ?h # map (\<lambda>i. buffer rb ! ((?h + Suc i) mod ?N)) [0..<?n']"
    using h by (simp add: upt_conv_Cons map_Suc_upt [symmetric] del: upt_Suc)
  also have "map (\<lambda>i. buffer rb ! ((?h + Suc i) mod ?N)) [0..<?n'] =
      map (\<lambda>i. (buffer rb)[?h := r] ! (((?h + 1) mod ?N + i) mod ?N)) [0..<?n']"
  proof (rule map_cong [OF refl])
    fix i assume "i \<in> set [0..<?n']"
    then have "i < ?n'" by simp
    then show "buffer rb ! ((?h + Suc i) mod ?N) = (buffer rb)[?h := r] ! (((?h + 1) mod ?N + i) mod ?N)"
      by (rule shift [symmetric])
  qed
  also have "\<dots> = live C ?rb'"
    by (simp add: live_def n' next_index_unat [OF v])
  finally show ?thesis .
qed

lemma live_update_tail:
  assumes v: "valid_capacity C" and w: "well_formed C rb"
  shows "live C (rb\<lparr>buffer := (buffer rb)[unat (tail rb) := s]\<rparr>) = live C rb"
proof -
  from w have h: "unat (head rb) < unat C" and t: "unat (tail rb) < unat C" by (simp_all add: well_formed_def)
  have n: "unat (size_buf C rb) = (unat (tail rb) + unat C - unat (head rb)) mod unat C"
    by (rule size_nat [OF v w])
  have sz: "size_buf C (rb\<lparr>buffer := (buffer rb)[unat (tail rb) := s]\<rparr>) = size_buf C rb"
    by (simp add: size_buf_def)
  show ?thesis
    unfolding live_def sz
  proof (rule map_cong [OF refl])
    fix i assume "i \<in> set [0..<unat (size_buf C rb)]"
    then have "i < (unat (tail rb) + unat C - unat (head rb)) mod unat C" by (simp add: n)
    then have "(unat (head rb) + i) mod unat C \<noteq> unat (tail rb)" by (rule dist_inside [OF h t])
    then show "buffer (rb\<lparr>buffer := (buffer rb)[unat (tail rb) := s]\<rparr>) !
                 ((unat (head (rb\<lparr>buffer := (buffer rb)[unat (tail rb) := s]\<rparr>)) + i) mod unat C) =
               buffer rb ! ((unat (head rb) + i) mod unat C)"
      by simp
  qed
qed

section \<open>First in, first out\<close>

lemma live_new: "valid_capacity C \<Longrightarrow> live C (RingBuffer_new slots) = []"
  by (simp add: live_def size_buf_def RingBuffer_new_def)

lemma length_live: "length (live C rb) = unat (size_buf C rb)"
  by (simp add: live_def)

lemma size_le: "valid_capacity C \<Longrightarrow> well_formed C rb \<Longrightarrow> unat (size_buf C rb) \<le> unat C - 1"
proof -
  assume v: "valid_capacity C" and w: "well_formed C rb"
  have "unat (size_buf C rb) < unat C"
    unfolding size_nat [OF v w] using w by (intro dist_less) (simp_all add: well_formed_def)
  then show ?thesis by simp
qed

text \<open>
  What a call does in a well-formed buffer that does not refuse it, for any element
  type.
\<close>

lemma try_push_cases:
  assumes "well_formed C rb" and "\<not> full C rb"
  shows "\<exists>s. (try_push ops C x rb =
                (Returns True, rb\<lparr>buffer := (buffer rb)[unat (tail rb) := s],
                                  tail := (tail rb + 1) AND kIndexMask C\<rparr>) \<and>
              (carries_value ops \<longrightarrow> s = x)) \<or>
             try_push ops C x rb = (Throws, rb\<lparr>buffer := (buffer rb)[unat (tail rb) := s]\<rparr>)"
proof (cases "fst (copy_assign ops (buffer rb ! unat (tail rb)) x)")
  case True
  then have "carries_value ops \<longrightarrow> snd (copy_assign ops (buffer rb ! unat (tail rb)) x) = x"
    by (simp add: carries_value_def)
  with True assms show ?thesis
    by (intro exI [of _ "snd (copy_assign ops (buffer rb ! unat (tail rb)) x)"])
      (simp add: try_push_def full_def Let_def well_formed_def split_beta)
next
  case False
  with assms show ?thesis
    by (intro exI [of _ "snd (copy_assign ops (buffer rb ! unat (tail rb)) x)"])
      (simp add: try_push_def full_def Let_def well_formed_def split_beta)
qed

lemma try_push_move_cases:
  assumes "well_formed C rb" and "\<not> full C rb"
  shows "\<exists>s. (fst (try_push_move ops C x rb) = Returns True \<and>
              fst (snd (try_push_move ops C x rb)) =
                rb\<lparr>buffer := (buffer rb)[unat (tail rb) := s],
                   tail := (tail rb + 1) AND kIndexMask C\<rparr> \<and>
              (carries_value ops \<longrightarrow> s = x)) \<or>
             (fst (try_push_move ops C x rb) = Throws \<and>
              fst (snd (try_push_move ops C x rb)) = rb\<lparr>buffer := (buffer rb)[unat (tail rb) := s]\<rparr>)"
proof (cases "fst (move_assign ops (buffer rb ! unat (tail rb)) x)")
  case True
  then have "carries_value ops \<longrightarrow> fst (snd (move_assign ops (buffer rb ! unat (tail rb)) x)) = x"
    by (simp add: carries_value_def)
  with True assms show ?thesis
    by (intro exI [of _ "fst (snd (move_assign ops (buffer rb ! unat (tail rb)) x))"])
      (simp add: try_push_move_def full_def Let_def well_formed_def split_beta)
next
  case False
  with assms show ?thesis
    by (intro exI [of _ "fst (snd (move_assign ops (buffer rb ! unat (tail rb)) x))"])
      (simp add: try_push_move_def full_def Let_def well_formed_def split_beta)
qed

lemma try_pop_cases:
  assumes "well_formed C rb" and "\<not> empty_buf rb" and "fst (try_pop ops C rb) \<noteq> Throws"
  shows "\<exists>y s. try_pop ops C rb =
                 (Returns (Some y), rb\<lparr>buffer := (buffer rb)[unat (head rb) := s],
                                      head := (head rb + 1) AND kIndexMask C\<rparr>) \<and>
               (carries_value ops \<longrightarrow> y = buffer rb ! unat (head rb))"
proof -
  let ?slot = "buffer rb ! unat (head rb)"
  from assms(1) have len: "\<not> length (buffer rb) \<le> unat (head rb)" by (simp add: well_formed_def)
  from assms(2) have ne: "head rb \<noteq> tail rb" by (simp add: empty_buf_def)
  obtain n s where m1: "move_construct ops ?slot = (n, s)" by (cases "move_construct ops ?slot")
  from assms(3) len ne m1 obtain item where n: "n = Some item"
    by (cases n) (simp_all add: try_pop_def Let_def)
  from assms(3) len ne m1 n obtain y where m2: "fst (move_construct ops item) = Some y"
    by (cases "fst (move_construct ops item)") (simp_all add: try_pop_def Let_def)
  have "carries_value ops \<longrightarrow> y = ?slot"
  proof
    assume cv: "carries_value ops"
    then have "fst (move_construct ops ?slot) = None \<or> fst (move_construct ops ?slot) = Some ?slot"
      by (simp add: carries_value_def)
    with m1 n have "item = ?slot" by simp
    moreover from cv have "fst (move_construct ops item) = None \<or> fst (move_construct ops item) = Some item"
      by (simp add: carries_value_def)
    with m2 have "y = item" by simp
    ultimately show "y = ?slot" by simp
  qed
  moreover have "try_pop ops C rb =
      (Returns (Some y), rb\<lparr>buffer := (buffer rb)[unat (head rb) := s],
                           head := (head rb + 1) AND kIndexMask C\<rparr>)"
    using len ne m1 n m2 by (simp add: try_pop_def Let_def)
  ultimately show ?thesis by blast
qed

lemma try_pop_empty: "empty_buf rb \<Longrightarrow> try_pop ops C rb = (Returns None, rb)"
  by (simp add: try_pop_def empty_buf_def)

lemma try_push_full: "full C rb \<Longrightarrow> try_push ops C x rb = (Returns False, rb)"
  by (simp add: try_push_def full_def Let_def)

lemma try_push_move_full: "full C rb \<Longrightarrow> try_push_move ops C x rb = (Returns False, rb, x)"
  by (simp add: try_push_move_def full_def Let_def)

lemma step_fifo:
  assumes v: "valid_capacity C" and cv: "carries_value ops" and w: "well_formed C rb"
    and nt: "fst (step ops C c rb) \<noteq> PopResult Throws"
  shows "live C rb @ accepted1 c (fst (step ops C c rb)) =
         popped1 (fst (step ops C c rb)) @ live C (snd (step ops C c rb))"
proof (cases c)
  case (Push x)
  show ?thesis
  proof (cases "full C rb")
    case True
    with Push show ?thesis by (simp add: try_push_full)
  next
    case False
    from try_push_cases [OF w False, of ops x] cv Push show ?thesis
      by (auto simp: live_push [OF v w False] live_update_tail [OF v w])
  qed
next
  case (PushMove x)
  show ?thesis
  proof (cases "full C rb")
    case True
    with PushMove show ?thesis by (simp add: try_push_move_full)
  next
    case False
    from try_push_move_cases [OF w False, of ops x] cv PushMove show ?thesis
      by (auto simp: split_beta live_push [OF v w False] live_update_tail [OF v w])
  qed
next
  case Pop
  show ?thesis
  proof (cases "empty_buf rb")
    case True
    with Pop show ?thesis by (simp add: try_pop_empty)
  next
    case False
    from nt Pop have "fst (try_pop ops C rb) \<noteq> Throws" by (simp add: split_beta)
    from try_pop_cases [OF w False this] cv obtain s where
      "try_pop ops C rb =
         (Returns (Some (buffer rb ! unat (head rb))),
          rb\<lparr>buffer := (buffer rb)[unat (head rb) := s], head := (head rb + 1) AND kIndexMask C\<rparr>)"
      by auto
    with Pop live_pop [OF v w False, of s] show ?thesis by simp
  qed
qed

lemma run_Cons:
  "run ops C (c # cs) rb =
     (fst (step ops C c rb) # fst (run ops C cs (snd (step ops C c rb))),
      snd (run ops C cs (snd (step ops C c rb))))"
  by (simp add: split_beta)

lemma run_fifo:
  assumes v: "valid_capacity C" and cv: "carries_value ops"
  shows "well_formed C rb \<Longrightarrow> PopResult Throws \<notin> set (fst (run ops C cs rb)) \<Longrightarrow>
         live C rb @ accepted cs (fst (run ops C cs rb)) =
         popped (fst (run ops C cs rb)) @ live C (snd (run ops C cs rb))"
proof (induction cs arbitrary: rb)
  case Nil
  then show ?case by (simp add: accepted_def popped_def)
next
  case (Cons c cs)
  let ?r = "fst (step ops C c rb)" and ?rb1 = "snd (step ops C c rb)"
  let ?rs = "fst (run ops C cs ?rb1)" and ?rb2 = "snd (run ops C cs ?rb1)"
  have w1: "well_formed C ?rb1" using v Cons.prems(1) by (rule step_wf)
  from Cons.prems(2) [unfolded run_Cons]
  have nt: "?r \<noteq> PopResult Throws" "PopResult Throws \<notin> set ?rs"
    by auto
  have "live C rb @ accepted (c # cs) (?r # ?rs) = (live C rb @ accepted1 c ?r) @ accepted cs ?rs"
    by (simp add: accepted_def)
  also have "\<dots> = popped1 ?r @ (live C ?rb1 @ accepted cs ?rs)"
    by (simp add: step_fifo [OF v cv Cons.prems(1) nt(1)])
  also have "\<dots> = popped1 ?r @ popped ?rs @ live C ?rb2"
    by (simp only: Cons.IH [OF w1 nt(2)])
  also have "\<dots> = popped (?r # ?rs) @ live C ?rb2" by (simp add: popped_def)
  finally show ?case by (simp only: run_Cons fst_conv snd_conv)
qed



lemma live_empty: "empty_buf rb \<Longrightarrow> live C rb = []"
  by (simp add: live_def size_buf_def empty_buf_def)

lemma valid_capacity_8: "valid_capacity 8"
  by (simp add: valid_capacity_def)

lemma value_semantics_trivially_copyable: "value_semantics trivially_copyable"
  by (simp add: value_semantics_def trivially_copyable_def)

lemma value_semantics_carries: "value_semantics ops \<Longrightarrow> carries_value ops"
  by (simp add: value_semantics_def carries_value_def)

lemma carries_value_test_message: "carries_value (test_message limit)"
  by (simp add: carries_value_def test_message_def)

text \<open>
  For an element type whose completed copies and moves carry the value, and any sequence
  of \<open>try_push\<close> (copy or move) and \<open>try_pop\<close> calls on a freshly constructed buffer in
  which no \<open>try_pop\<close> throws: the values accepted by the pushes that returned \<open>true\<close> are,
  in order, the values returned by the pops followed by the elements still live in the
  buffer, of which there are at most \<open>Capacity - 1\<close>. Nothing is lost, duplicated or
  reordered, however often the indices wrap and whichever pushes throw. Once the buffer
  is empty again, the popped values are exactly the accepted ones.
\<close>

theorem fifo_unless_pop_throws:
  assumes "valid_capacity C" and "carries_value ops" and "length slots = unat C"
    and "PopResult Throws \<notin> set (fst (run ops C calls (RingBuffer_new slots)))"
  shows "accepted calls (fst (run ops C calls (RingBuffer_new slots))) =
           popped (fst (run ops C calls (RingBuffer_new slots))) @
           live C (snd (run ops C calls (RingBuffer_new slots))) \<and>
         length (live C (snd (run ops C calls (RingBuffer_new slots)))) \<le> unat C - 1 \<and>
         (empty_buf (snd (run ops C calls (RingBuffer_new slots))) \<longrightarrow>
            popped (fst (run ops C calls (RingBuffer_new slots))) =
            accepted calls (fst (run ops C calls (RingBuffer_new slots))))"
proof -
  let ?init = "RingBuffer_new slots"
  let ?rs = "fst (run ops C calls ?init)" and ?rb = "snd (run ops C calls ?init)"
  have w0: "well_formed C ?init" using assms(3,1) by (rule wf_new)
  have w: "well_formed C ?rb" using assms(1) w0 by (rule run_wf)
  have "live C ?init @ accepted calls ?rs = popped ?rs @ live C ?rb"
    using assms(1,2) w0 assms(4) by (rule run_fifo)
  then have 1: "accepted calls ?rs = popped ?rs @ live C ?rb"
    by (simp add: live_new [OF assms(1)])
  have 2: "length (live C ?rb) \<le> unat C - 1"
    using size_le [OF assms(1) w] by (simp add: length_live)
  have 3: "popped ?rs = accepted calls ?rs" if "empty_buf ?rb"
    using 1 live_empty [OF that] by simp
  from 1 2 3 show ?thesis by blast
qed

text \<open>
  Sixteen rounds of five pushes and five pops on a buffer of eight slots: eighty values
  go through seven usable slots, the indices wrap ten times, and the counter comes out as
  it went in. And on four slots with \<open>TestMessage\<close> elements, two pushes throw between the
  accepted ones, and the accepted values come out in order.
\<close>

theorem fifo_unless_pop_throws_witness:
  "valid_capacity 8 \<and> carries_value (trivially_copyable :: int elem_ops) \<and>
   length (replicate 8 (0::int)) = unat (8::size_t) \<and>
   PopResult Throws \<notin>
     set (fst (run trivially_copyable 8 (cycles 16 5 0) (RingBuffer_new (replicate 8 (0::int))))) \<and>
   accepted (cycles 16 5 0)
     (fst (run trivially_copyable 8 (cycles 16 5 0) (RingBuffer_new (replicate 8 0)))) = map int [0..<80] \<and>
   popped (fst (run trivially_copyable 8 (cycles 16 5 0) (RingBuffer_new (replicate 8 0)))) = map int [0..<80] \<and>
   valid_capacity 4 \<and> carries_value (test_message 3) \<and>
   length (replicate 4 (0 :: int, '''' :: string)) = unat (4::size_t) \<and>
   PopResult Throws \<notin>
     set (fst (run (test_message 3) 4 throwing_push_example (RingBuffer_new (replicate 4 (0, ''''))))) \<and>
   PushResult Throws \<in>
     set (fst (run (test_message 3) 4 throwing_push_example (RingBuffer_new (replicate 4 (0, ''''))))) \<and>
   accepted throwing_push_example
     (fst (run (test_message 3) 4 throwing_push_example (RingBuffer_new (replicate 4 (0, ''''))))) =
     [(1, ''ab''), (2, ''cd'')] \<and>
   popped (fst (run (test_message 3) 4 throwing_push_example (RingBuffer_new (replicate 4 (0, ''''))))) =
     [(1, ''ab''), (2, ''cd'')]"
proof -
  have 1: "valid_capacity 8" by (rule valid_capacity_8)
  have 2: "carries_value (trivially_copyable :: int elem_ops)"
    by (rule value_semantics_carries [OF value_semantics_trivially_copyable])
  have 3: "length (replicate 8 (0::int)) = unat (8::size_t)" by simp
  have 4: "PopResult Throws \<notin>
      set (fst (run trivially_copyable 8 (cycles 16 5 0) (RingBuffer_new (replicate 8 (0::int)))))"
    by code_simp
  have e: "empty_buf (snd (run trivially_copyable 8 (cycles 16 5 0) (RingBuffer_new (replicate 8 (0::int)))))"
    by code_simp
  have p: "popped (fst (run trivially_copyable 8 (cycles 16 5 0) (RingBuffer_new (replicate 8 0)))) = map int [0..<80]"
    by code_simp
  note a = fifo_unless_pop_throws [OF 1 2 3 4, THEN conjunct2, THEN conjunct2, THEN mp, OF e]
  have 5: "valid_capacity 4" by (simp add: valid_capacity_def)
  have 6: "carries_value (test_message 3)" by (rule carries_value_test_message)
  have 7: "length (replicate 4 (0 :: int, '''' :: string)) = unat (4::size_t)" by simp
  have 8: "PopResult Throws \<notin>
      set (fst (run (test_message 3) 4 throwing_push_example (RingBuffer_new (replicate 4 (0, '''')))))"
    by code_simp
  have 9: "PushResult Throws \<in>
      set (fst (run (test_message 3) 4 throwing_push_example (RingBuffer_new (replicate 4 (0, '''')))))"
    by code_simp
  have e': "empty_buf (snd (run (test_message 3) 4 throwing_push_example (RingBuffer_new (replicate 4 (0, '''')))))"
    by code_simp
  have p': "popped (fst (run (test_message 3) 4 throwing_push_example (RingBuffer_new (replicate 4 (0, ''''))))) =
      [(1, ''ab''), (2, ''cd'')]"
    by code_simp
  note b = fifo_unless_pop_throws [OF 5 6 7 8, THEN conjunct2, THEN conjunct2, THEN mp, OF e']
  from 1 2 3 4 a [unfolded p, symmetric] p 5 6 7 8 9 b [unfolded p', symmetric] p'
  show ?thesis by (intro conjI)
qed

text \<open>
  C1 says that the values returned by the successful pops are exactly the values accepted
  by the successful pushes, in order, none lost. The code loses a value when the move in
  \<^verbatim>\<open>return item;\<close> throws, because \<open>try_pop\<close> has stored the new head by then. On four
  slots, with an element whose move constructor throws at its second move: the push is
  accepted, the pop throws, and afterwards nothing has been popped, nothing is live, and
  the next pop finds the buffer empty.
\<close>

theorem value_lost_when_return_throws:
  "fst (run move_budget 4 [Push (5, 1), Pop] (RingBuffer_new (replicate 4 (0, 0)))) =
     [PushResult (Returns True), PopResult Throws] \<and>
   accepted [Push (5, 1), Pop] (fst (run move_budget 4 [Push (5, 1), Pop] (RingBuffer_new (replicate 4 (0, 0))))) =
     [(5, 1)] \<and>
   popped (fst (run move_budget 4 [Push (5, 1), Pop] (RingBuffer_new (replicate 4 (0, 0))))) = [] \<and>
   live 4 (snd (run move_budget 4 [Push (5, 1), Pop] (RingBuffer_new (replicate 4 (0, 0))))) = [] \<and>
   fst (try_pop move_budget 4 (snd (run move_budget 4 [Push (5, 1), Pop] (RingBuffer_new (replicate 4 (0, 0)))))) =
     Returns None"
  by code_simp

section \<open>The state between calls\<close>




lemma size_uint:
  assumes v: "valid_capacity C" and w: "well_formed C rb"
  shows "uint (size_buf C rb) = (uint (tail rb) - uint (head rb)) mod uint C"
proof -
  from w have h: "unat (head rb) < unat C" and t: "unat (tail rb) < unat C" by (simp_all add: well_formed_def)
  have "int (unat (size_buf C rb)) = (int (unat (tail rb)) - int (unat (head rb))) mod int (unat C)"
    unfolding size_nat [OF v w] by (rule dist_int [OF h t])
  then show ?thesis by simp
qed

text \<open>
  C2. In every state reached from the freshly constructed buffer by any sequence of
  \<open>try_push\<close> and \<open>try_pop\<close> calls, for any element type: head and tail are below
  \<open>Capacity\<close>; \<open>empty()\<close> holds iff head equals tail; \<open>full()\<close> holds iff
  \<open>(tail + 1) mod Capacity\<close> equals head; \<open>size()\<close> is \<open>(tail - head) mod Capacity\<close>, and it
  is at most \<open>Capacity - 1\<close>.
\<close>

theorem reachable_state_invariants:
  assumes "valid_capacity C" and "length slots = unat C"
    and "rb = snd (run ops C calls (RingBuffer_new slots))"
  shows "unat (head rb) < unat C \<and> unat (tail rb) < unat C \<and>
         (empty_buf rb \<longleftrightarrow> head rb = tail rb) \<and>
         (full C rb \<longleftrightarrow> (unat (tail rb) + 1) mod unat C = unat (head rb)) \<and>
         uint (size_buf C rb) = (uint (tail rb) - uint (head rb)) mod uint C \<and>
         unat (size_buf C rb) \<le> unat C - 1"
proof -
  have "well_formed C (RingBuffer_new slots)" using assms(2,1) by (rule wf_new)
  then have w: "well_formed C rb" unfolding assms(3) by (rule run_wf [OF assms(1)])
  then have "unat (head rb) < unat C" "unat (tail rb) < unat C" by (simp_all add: well_formed_def)
  moreover have "empty_buf rb \<longleftrightarrow> head rb = tail rb" by (simp add: empty_buf_def)
  moreover note full_iff [OF assms(1), of rb] size_uint [OF assms(1) w] size_le [OF assms(1) w]
  ultimately show ?thesis by blast
qed

text \<open>
  The wrapped state: head is 7, tail is 1, and \<open>size()\<close> is 2.
\<close>

theorem reachable_state_invariants_witness:
  "valid_capacity 8 \<and> length (replicate 8 (0::int)) = unat (8::size_t) \<and>
   head wrapped_example = 7 \<and> tail wrapped_example = 1 \<and> size_buf 8 wrapped_example = 2 \<and>
   unat (head wrapped_example) < unat (8::size_t) \<and> unat (tail wrapped_example) < unat (8::size_t) \<and>
   (empty_buf wrapped_example \<longleftrightarrow> head wrapped_example = tail wrapped_example) \<and>
   (full 8 wrapped_example \<longleftrightarrow>
      (unat (tail wrapped_example) + 1) mod unat (8::size_t) = unat (head wrapped_example)) \<and>
   uint (size_buf 8 wrapped_example) =
     (uint (tail wrapped_example) - uint (head wrapped_example)) mod uint (8::size_t) \<and>
   unat (size_buf 8 wrapped_example) \<le> unat (8::size_t) - 1"
proof -
  have 1: "valid_capacity 8" by (rule valid_capacity_8)
  have 2: "length (replicate 8 (0::int)) = unat (8::size_t)" by simp
  have 3: "head wrapped_example = 7" "tail wrapped_example = 1" "size_buf 8 wrapped_example = 2"
    by code_simp+
  from reachable_state_invariants [OF 1 2 wrapped_example_def] 1 2 3 show ?thesis by blast
qed

section \<open>When a call is refused\<close>







lemma size_push:
  assumes v: "valid_capacity C" and w: "well_formed C rb" and nf: "\<not> full C rb"
  shows "unat (size_buf C (rb\<lparr>buffer := b, tail := (tail rb + 1) AND kIndexMask C\<rparr>)) =
         Suc (unat (size_buf C rb))"
proof -
  from w have h: "unat (head rb) < unat C" and t: "unat (tail rb) < unat C" by (simp_all add: well_formed_def)
  from nf v have nf': "(unat (tail rb) + 1) mod unat C \<noteq> unat (head rb)" by (simp add: full_iff)
  show ?thesis using dist_push [OF h t nf']
    by (simp add: size_buf_def Let_def size_unat [OF v h] next_index_unat [OF v])
qed

lemma size_pop:
  assumes v: "valid_capacity C" and w: "well_formed C rb" and ne: "\<not> empty_buf rb"
  shows "Suc (unat (size_buf C (rb\<lparr>buffer := b, head := (head rb + 1) AND kIndexMask C\<rparr>))) =
         unat (size_buf C rb)"
proof -
  from w have h: "unat (head rb) < unat C" and t: "unat (tail rb) < unat C" by (simp_all add: well_formed_def)
  from ne have ne': "unat (head rb) \<noteq> unat (tail rb)" by (simp add: empty_iff)
  show ?thesis using dist_pop [OF h t ne']
    by (simp add: size_buf_def Let_def size_unat [OF v h] size_unat [OF v next_index_less [OF v]]
        next_index_unat [OF v])
qed

lemma step_count:
  assumes v: "valid_capacity C" and w: "well_formed C rb"
    and nt: "fst (step ops C c rb) \<noteq> PopResult Throws"
  shows "unat (size_buf C (snd (step ops C c rb))) + length (popped1 (fst (step ops C c rb))) =
         unat (size_buf C rb) + length (accepted1 c (fst (step ops C c rb)))"
proof (cases c)
  case (Push x)
  show ?thesis
  proof (cases "full C rb")
    case True
    with Push show ?thesis by (simp add: try_push_full)
  next
    case False
    from try_push_cases [OF w False, of ops x] Push show ?thesis
      by (auto simp: size_push [OF v w False]) (simp add: size_buf_def)
  qed
next
  case (PushMove x)
  show ?thesis
  proof (cases "full C rb")
    case True
    with PushMove show ?thesis by (simp add: try_push_move_full)
  next
    case False
    from try_push_move_cases [OF w False, of ops x] PushMove show ?thesis
      by (auto simp: split_beta size_push [OF v w False]) (simp add: size_buf_def)
  qed
next
  case Pop
  show ?thesis
  proof (cases "empty_buf rb")
    case True
    with Pop show ?thesis by (simp add: try_pop_empty)
  next
    case False
    from nt Pop have "fst (try_pop ops C rb) \<noteq> Throws" by (simp add: split_beta)
    from try_pop_cases [OF w False this] obtain y s where
      "try_pop ops C rb =
         (Returns (Some y),
          rb\<lparr>buffer := (buffer rb)[unat (head rb) := s], head := (head rb + 1) AND kIndexMask C\<rparr>)"
      by auto
    with Pop size_pop [OF v w False, of "(buffer rb)[unat (head rb) := s]", symmetric] show ?thesis by simp
  qed
qed

lemma run_count:
  assumes v: "valid_capacity C"
  shows "well_formed C rb \<Longrightarrow> PopResult Throws \<notin> set (fst (run ops C cs rb)) \<Longrightarrow>
         unat (size_buf C (snd (run ops C cs rb))) + length (popped (fst (run ops C cs rb))) =
         unat (size_buf C rb) + length (accepted cs (fst (run ops C cs rb)))"
proof (induction cs arbitrary: rb)
  case Nil
  then show ?case by (simp add: accepted_def popped_def)
next
  case (Cons c cs)
  let ?r = "fst (step ops C c rb)" and ?rb1 = "snd (step ops C c rb)"
  let ?rs = "fst (run ops C cs ?rb1)" and ?rb2 = "snd (run ops C cs ?rb1)"
  have w1: "well_formed C ?rb1" using v Cons.prems(1) by (rule step_wf)
  from Cons.prems(2) [unfolded run_Cons]
  have nt: "?r \<noteq> PopResult Throws" "PopResult Throws \<notin> set ?rs"
    by auto
  have "unat (size_buf C ?rb2) + length (popped (?r # ?rs)) =
        (unat (size_buf C ?rb2) + length (popped ?rs)) + length (popped1 ?r)"
    by (simp add: popped_def)
  also have "\<dots> = (unat (size_buf C ?rb1) + length (popped1 ?r)) + length (accepted cs ?rs)"
    by (simp only: Cons.IH [OF w1 nt(2)])
  also have "\<dots> = unat (size_buf C rb) + length (accepted (c # cs) (?r # ?rs))"
    by (simp only: step_count [OF v Cons.prems(1) nt(1)]) (simp add: accepted_def)
  finally show ?case by (simp only: run_Cons fst_conv snd_conv)
qed




text \<open>
  For any element type: after any sequence of calls on a fresh buffer in which no
  \<open>try_pop\<close> throws, of which \<open>k\<close> pushes returned \<open>true\<close> and \<open>j\<close> pops returned a value,
  \<open>j \<le> k\<close>, \<open>k - j \<le> Capacity - 1\<close> and \<open>size()\<close> returns \<open>k - j\<close>.
\<close>

theorem size_unless_pop_throws:
  assumes "valid_capacity C" and "length slots = unat C"
    and "PopResult Throws \<notin> set (fst (run ops C calls (RingBuffer_new slots)))"
    and "length (accepted calls (fst (run ops C calls (RingBuffer_new slots)))) = k"
    and "length (popped (fst (run ops C calls (RingBuffer_new slots)))) = j"
  shows "j \<le> k \<and> k - j \<le> unat C - 1 \<and>
         unat (size_buf C (snd (run ops C calls (RingBuffer_new slots)))) = k - j"
proof -
  let ?init = "RingBuffer_new slots"
  have w0: "well_formed C ?init" using assms(2,1) by (rule wf_new)
  have w: "well_formed C (snd (run ops C calls ?init))" using assms(1) w0 by (rule run_wf)
  have "unat (size_buf C ?init) = 0" by (simp add: size_buf_def RingBuffer_new_def)
  with run_count [OF assms(1) w0 assms(3)]
  have "unat (size_buf C (snd (run ops C calls ?init))) + j = k"
    by (simp add: assms(4,5))
  with size_le [OF assms(1) w] show ?thesis by auto
qed

text \<open>
  Nine accepted pushes and seven successful pops on eight slots leave \<open>size()\<close> at 2; two
  accepted pushes, two that throw and two successful pops on four slots leave it at 0.
\<close>

theorem size_unless_pop_throws_witness:
  "valid_capacity 8 \<and> length (replicate 8 (0::int)) = unat (8::size_t) \<and>
   PopResult Throws \<notin>
     set (fst (run trivially_copyable 8 (cycles 1 7 0 @ [PushMove 100, Push 101])
                (RingBuffer_new (replicate 8 (0::int))))) \<and>
   length (accepted (cycles 1 7 0 @ [PushMove 100, Push 101])
      (fst (run trivially_copyable 8 (cycles 1 7 0 @ [PushMove 100, Push 101]) (RingBuffer_new (replicate 8 0))))) = 9 \<and>
   length (popped
      (fst (run trivially_copyable 8 (cycles 1 7 0 @ [PushMove 100, Push 101]) (RingBuffer_new (replicate 8 0))))) = 7 \<and>
   unat (size_buf 8
      (snd (run trivially_copyable 8 (cycles 1 7 0 @ [PushMove 100, Push 101]) (RingBuffer_new (replicate 8 (0::int)))))) = 9 - 7 \<and>
   valid_capacity 4 \<and> length (replicate 4 (0 :: int, '''' :: string)) = unat (4::size_t) \<and>
   PopResult Throws \<notin>
     set (fst (run (test_message 3) 4 throwing_push_example (RingBuffer_new (replicate 4 (0, ''''))))) \<and>
   length (accepted throwing_push_example
      (fst (run (test_message 3) 4 throwing_push_example (RingBuffer_new (replicate 4 (0, '''')))))) = 2 \<and>
   length (popped
      (fst (run (test_message 3) 4 throwing_push_example (RingBuffer_new (replicate 4 (0, '''')))))) = 2 \<and>
   unat (size_buf 4
      (snd (run (test_message 3) 4 throwing_push_example (RingBuffer_new (replicate 4 (0, '''')))))) = 2 - 2"
proof -
  have 1: "valid_capacity 8" by (rule valid_capacity_8)
  have 2: "length (replicate 8 (0::int)) = unat (8::size_t)" by simp
  have 3: "PopResult Throws \<notin>
     set (fst (run trivially_copyable 8 (cycles 1 7 0 @ [PushMove 100, Push 101])
                (RingBuffer_new (replicate 8 (0::int)))))"
    by code_simp
  have 4: "length (accepted (cycles 1 7 0 @ [PushMove 100, Push 101])
      (fst (run trivially_copyable 8 (cycles 1 7 0 @ [PushMove 100, Push 101]) (RingBuffer_new (replicate 8 0))))) = 9"
    by code_simp
  have 5: "length (popped
      (fst (run trivially_copyable 8 (cycles 1 7 0 @ [PushMove 100, Push 101]) (RingBuffer_new (replicate 8 0))))) = 7"
    by code_simp
  note a = size_unless_pop_throws [OF 1 2 3 4 5, THEN conjunct2, THEN conjunct2]
  have 6: "valid_capacity 4" by (simp add: valid_capacity_def)
  have 7: "length (replicate 4 (0 :: int, '''' :: string)) = unat (4::size_t)" by simp
  have 8: "PopResult Throws \<notin>
      set (fst (run (test_message 3) 4 throwing_push_example (RingBuffer_new (replicate 4 (0, '''')))))"
    by code_simp
  have 9: "length (accepted throwing_push_example
      (fst (run (test_message 3) 4 throwing_push_example (RingBuffer_new (replicate 4 (0, '''')))))) = 2"
    by code_simp
  have 10: "length (popped
      (fst (run (test_message 3) 4 throwing_push_example (RingBuffer_new (replicate 4 (0, '''')))))) = 2"
    by code_simp
  note b = size_unless_pop_throws [OF 6 7 8 9 10, THEN conjunct2, THEN conjunct2]
  from 1 2 3 4 5 a 6 7 8 9 10 b show ?thesis by (intro conjI)
qed

text \<open>
  C5 says that after \<open>k\<close> successful pushes and \<open>j\<close> successful pops \<open>size()\<close> returns
  \<open>k - j\<close>. The code breaks it when the move in \<^verbatim>\<open>return item;\<close> throws, because
  \<open>try_pop\<close> has stored the new head by then: after one accepted push and a pop that
  throws, one push has succeeded and no pop has, and \<open>size()\<close> returns 0.
\<close>

theorem size_short_when_return_throws:
  "length (accepted [Push (5, 1), Pop]
      (fst (run move_budget 4 [Push (5, 1), Pop] (RingBuffer_new (replicate 4 (0, 0)))))) = 1 \<and>
   length (popped (fst (run move_budget 4 [Push (5, 1), Pop] (RingBuffer_new (replicate 4 (0, 0)))))) = 0 \<and>
   size_buf 4 (snd (run move_budget 4 [Push (5, 1), Pop] (RingBuffer_new (replicate 4 (0, 0))))) = 0 \<and>
   head (snd (run move_budget 4 [Push (5, 1), Pop] (RingBuffer_new (replicate 4 (0, 0))))) = 1 \<and>
   tail (snd (run move_budget 4 [Push (5, 1), Pop] (RingBuffer_new (replicate 4 (0, 0))))) = 1"
  by code_simp

section \<open>The constants\<close>

text \<open>
  C7. \<open>capacity()\<close> is \<open>Capacity - 1\<close> and \<open>buffer_size()\<close> is \<open>Capacity\<close>, whatever the
  state: the subtraction does not wrap, the array has \<open>buffer_size()\<close> slots in every
  reachable state, and \<open>size()\<close> never exceeds \<open>capacity()\<close>.
\<close>

theorem capacity_and_buffer_size:
  assumes "valid_capacity C" and "length slots = unat C"
    and "rb = snd (run ops C calls (RingBuffer_new slots))"
  shows "capacity C = C - 1 \<and> buffer_size C = C \<and> unat (capacity C) = unat C - 1 \<and>
         length (buffer rb) = unat (buffer_size C) \<and> size_buf C rb \<le> capacity C"
proof -
  have "well_formed C (RingBuffer_new slots)" using assms(2,1) by (rule wf_new)
  then have w: "well_formed C rb" unfolding assms(3) by (rule run_wf [OF assms(1)])
  have nz: "C \<noteq> 0" using valid_capacity_gt1 [OF assms(1)] by auto
  have c: "unat (capacity C) = unat C - 1" using nz by (simp add: capacity_def unat_minus_one)
  have "unat (size_buf C rb) \<le> unat (capacity C)" using size_le [OF assms(1) w] by (simp only: c)
  then have "size_buf C rb \<le> capacity C" by (simp add: word_le_nat_alt)
  moreover have "length (buffer rb) = unat (buffer_size C)" using w by (simp add: well_formed_def buffer_size_def)
  ultimately show ?thesis using c by (simp add: capacity_def buffer_size_def)
qed

text \<open>
  On eight slots: \<open>capacity()\<close> is 7 and \<open>buffer_size()\<close> is 8.
\<close>

theorem capacity_and_buffer_size_witness:
  "valid_capacity 8 \<and> length (replicate 8 (0::int)) = unat (8::size_t) \<and>
   capacity 8 = 7 \<and> buffer_size 8 = 8 \<and> unat (capacity 8) = unat (8::size_t) - 1 \<and>
   length (buffer wrapped_example) = unat (buffer_size 8) \<and> size_buf 8 wrapped_example \<le> capacity 8"
proof -
  have 1: "valid_capacity 8" by (rule valid_capacity_8)
  have 2: "length (replicate 8 (0::int)) = unat (8::size_t)" by simp
  have 3: "(8::size_t) - 1 = 7" by simp
  from capacity_and_buffer_size [OF 1 2 wrapped_example_def] 1 2 show ?thesis
    unfolding 3 by blast
qed

section \<open>Who moves which index\<close>

lemma try_push_frame:
  "head (snd (try_push ops C x rb)) = head rb \<and>
   (tail (snd (try_push ops C x rb)) = tail rb \<or>
    tail (snd (try_push ops C x rb)) = (tail rb + 1) AND kIndexMask C)"
  by (simp add: try_push_def Let_def split: prod.split)

lemma try_push_move_frame:
  "head (fst (snd (try_push_move ops C x rb))) = head rb \<and>
   (tail (fst (snd (try_push_move ops C x rb))) = tail rb \<or>
    tail (fst (snd (try_push_move ops C x rb))) = (tail rb + 1) AND kIndexMask C)"
  by (simp add: try_push_move_def Let_def split: prod.split)

lemma try_pop_frame:
  "tail (snd (try_pop ops C rb)) = tail rb \<and>
   (head (snd (try_pop ops C rb)) = head rb \<or>
    head (snd (try_pop ops C rb)) = (head rb + 1) AND kIndexMask C)"
  by (simp add: try_pop_def Let_def split: prod.split option.split)

text \<open>
  C8. In any state and for any element type, \<open>try_push\<close> (either overload) leaves head
  as it is and \<open>try_pop\<close> leaves tail as it is; the index a call owns either stays or
  becomes its successor modulo \<open>Capacity\<close>.
\<close>

theorem index_frame:
  assumes "valid_capacity C"
  shows "head (snd (try_push ops C x rb)) = head rb \<and>
         head (fst (snd (try_push_move ops C x rb))) = head rb \<and>
         tail (snd (try_pop ops C rb)) = tail rb \<and>
         (unat (tail (snd (try_push ops C x rb))) = unat (tail rb) \<or>
          unat (tail (snd (try_push ops C x rb))) = (unat (tail rb) + 1) mod unat C) \<and>
         (unat (tail (fst (snd (try_push_move ops C x rb)))) = unat (tail rb) \<or>
          unat (tail (fst (snd (try_push_move ops C x rb)))) = (unat (tail rb) + 1) mod unat C) \<and>
         (unat (head (snd (try_pop ops C rb))) = unat (head rb) \<or>
          unat (head (snd (try_pop ops C rb))) = (unat (head rb) + 1) mod unat C)"
  using try_push_frame [of ops C x rb] try_push_move_frame [of ops C x rb] try_pop_frame [of ops C rb]
  by (auto simp: next_index_unat [OF assms])

text \<open>
  In the wrapped state a pop takes head from 7 to 0 and leaves tail alone; a push leaves
  head alone.
\<close>

theorem index_frame_witness:
  "valid_capacity 8 \<and>
   head (snd (try_push trivially_copyable 8 102 wrapped_example)) = head wrapped_example \<and>
   tail (snd (try_pop trivially_copyable 8 wrapped_example)) = tail wrapped_example \<and>
   (unat (head (snd (try_pop trivially_copyable 8 wrapped_example))) = unat (head wrapped_example) \<or>
    unat (head (snd (try_pop trivially_copyable 8 wrapped_example))) =
      (unat (head wrapped_example) + 1) mod unat (8::size_t)) \<and>
   head wrapped_example = 7 \<and> head (snd (try_pop trivially_copyable 8 wrapped_example)) = 0"
proof -
  have 1: "valid_capacity 8" by (rule valid_capacity_8)
  have 2: "head wrapped_example = 7" "head (snd (try_pop trivially_copyable 8 wrapped_example)) = 0"
    by code_simp+
  from index_frame [OF 1, of trivially_copyable 102 wrapped_example] 1 2 show ?thesis by blast
qed

section \<open>The two overloads of \<open>try_push\<close>\<close>


lemma push_overloads_value:
  assumes "value_semantics ops"
  shows "fst (try_push_move ops C x rb) = fst (try_push ops C x rb) \<and>
         fst (snd (try_push_move ops C x rb)) = snd (try_push ops C x rb)"
proof -
  have c: "copy_assign ops d x = (True, x)" for d using assms by (simp add: value_semantics_def)
  have m: "fst (move_assign ops d x)" "fst (snd (move_assign ops d x)) = x" for d
    using assms by (simp_all add: value_semantics_def)
  show ?thesis
    by (simp add: try_push_def try_push_move_def Let_def c m split_beta)
qed




section \<open>Round trip\<close>

lemma live_hd:
  assumes "valid_capacity C" and "well_formed C rb" and "\<not> empty_buf rb"
  shows "hd (live C rb) = buffer rb ! unat (head rb)"
  by (simp only: live_pop [OF assms, of "buffer rb ! unat (head rb)"] list.sel)

text \<open>
  C6, as amended. For an element type with value semantics, in every well-formed state
  that is not full and for every value \<open>v\<close>: \<open>try_push(v)\<close> (either overload) returns
  \<open>true\<close> and the \<open>try_pop()\<close> that follows returns the oldest live element, which is the
  first of the elements that were live before the push when there was one, and \<open>v\<close> when
  the buffer was empty; in that case the buffer is empty again afterwards.
\<close>

theorem push_then_pop:
  assumes "valid_capacity C" and "value_semantics ops" and "well_formed C rb" and "\<not> full C rb"
  shows "fst (try_push ops C v rb) = Returns True \<and>
         fst (try_pop ops C (snd (try_push ops C v rb))) = Returns (Some (hd (live C rb @ [v]))) \<and>
         fst (try_push_move ops C v rb) = Returns True \<and>
         fst (try_pop ops C (fst (snd (try_push_move ops C v rb)))) = Returns (Some (hd (live C rb @ [v]))) \<and>
         (empty_buf rb \<longrightarrow>
            fst (try_pop ops C (snd (try_push ops C v rb))) = Returns (Some v) \<and>
            empty_buf (snd (try_pop ops C (snd (try_push ops C v rb)))))"
proof -
  let ?rb1 = "rb\<lparr>buffer := (buffer rb)[unat (tail rb) := v], tail := (tail rb + 1) AND kIndexMask C\<rparr>"
  have push: "try_push ops C v rb = (Returns True, ?rb1)"
    using assms(4) by (simp add: try_push_vs [OF assms(2,3)])
  have move: "fst (try_push_move ops C v rb) = Returns True" "fst (snd (try_push_move ops C v rb)) = ?rb1"
    using push_overloads_value [OF assms(2), of C v rb] by (simp_all add: push)
  have w1: "well_formed C ?rb1" using try_push_wf [OF assms(1,3), of ops v] by (simp add: push)
  have ne: "\<not> empty_buf ?rb1" using assms(4) by (auto simp: empty_buf_def full_def)
  have l1: "live C ?rb1 = live C rb @ [v]" by (rule live_push [OF assms(1,3,4)])
  have pop: "fst (try_pop ops C ?rb1) = Returns (Some (buffer ?rb1 ! unat (head ?rb1)))"
    using ne by (simp add: try_pop_vs [OF assms(2) w1])
  have "buffer ?rb1 ! unat (head ?rb1) = hd (live C ?rb1)"
    by (rule live_hd [OF assms(1) w1 ne, symmetric])
  with pop l1 have pop': "fst (try_pop ops C ?rb1) = Returns (Some (hd (live C rb @ [v])))"
    by simp
  have e: "fst (try_pop ops C ?rb1) = Returns (Some v) \<and> empty_buf (snd (try_pop ops C ?rb1))"
    if "empty_buf rb"
  proof -
    have "live C rb = []" using that by (rule live_empty)
    with pop' have "fst (try_pop ops C ?rb1) = Returns (Some v)" by simp
    moreover have "empty_buf (snd (try_pop ops C ?rb1))"
      using ne that by (simp add: try_pop_vs [OF assms(2) w1]) (simp add: empty_buf_def)
    ultimately show ?thesis by blast
  qed
  from pop' e show ?thesis by (simp add: push move)
qed

text \<open>
  In the wrapped state, which holds 100 and 101, pushing 102 and popping returns 100; in
  the fresh buffer, pushing 102 and popping returns 102.
\<close>

theorem push_then_pop_witness:
  "valid_capacity 8 \<and> value_semantics (trivially_copyable :: int elem_ops) \<and>
   well_formed 8 wrapped_example \<and> \<not> full 8 wrapped_example \<and> live 8 wrapped_example = [100, 101] \<and>
   fst (try_push trivially_copyable 8 102 wrapped_example) = Returns True \<and>
   fst (try_pop trivially_copyable 8 (snd (try_push trivially_copyable 8 102 wrapped_example))) =
     Returns (Some 100) \<and>
   well_formed 8 (RingBuffer_new (replicate 8 (0::int))) \<and> \<not> full 8 (RingBuffer_new (replicate 8 (0::int))) \<and>
   empty_buf (RingBuffer_new (replicate 8 (0::int))) \<and>
   fst (try_pop trivially_copyable 8
         (snd (try_push trivially_copyable 8 102 (RingBuffer_new (replicate 8 (0::int)))))) =
     Returns (Some 102) \<and>
   empty_buf (snd (try_pop trivially_copyable 8
                     (snd (try_push trivially_copyable 8 102 (RingBuffer_new (replicate 8 (0::int)))))))"
proof -
  have 1: "valid_capacity 8" by (rule valid_capacity_8)
  have 2: "value_semantics (trivially_copyable :: int elem_ops)"
    by (rule value_semantics_trivially_copyable)
  have 3: "well_formed 8 wrapped_example" "\<not> full 8 wrapped_example" by code_simp+
  have 4: "live 8 wrapped_example = [100, 101]" by code_simp
  have 5: "well_formed 8 (RingBuffer_new (replicate 8 (0::int)))" "\<not> full 8 (RingBuffer_new (replicate 8 (0::int)))"
    "empty_buf (RingBuffer_new (replicate 8 (0::int)))"
    by code_simp+
  have 6: "hd (live 8 wrapped_example @ [102]) = 100" unfolding 4 by simp
  note a = push_then_pop [OF 1 2 3, of 102, unfolded 6]
  note b = push_then_pop [OF 1 2 5(1,2), of 102]
  note a1 = a [THEN conjunct1] and a2 = a [THEN conjunct2, THEN conjunct1]
  note b5 = b [THEN conjunct2, THEN conjunct2, THEN conjunct2, THEN conjunct2, THEN mp, OF 5(3)]
  note b51 = b5 [THEN conjunct1] and b52 = b5 [THEN conjunct2]
  from 1 2 3 4 a1 a2 5 b51 b52 show ?thesis by (intro conjI)
qed

text \<open>
  C6 as stated fails in a state that is neither full nor empty: after 1 was pushed on
  four slots, pushing 2 and popping returns 1.
\<close>

theorem push_pop_not_last_in_counterexample:
  "\<not> full 4 (snd (run trivially_copyable 4 [Push 1] (RingBuffer_new [0, 0, 0, 0 :: int]))) \<and>
   fst (try_push trivially_copyable 4 2 (snd (run trivially_copyable 4 [Push 1] (RingBuffer_new [0, 0, 0, 0 :: int]))))
     = Returns True \<and>
   fst (try_pop trivially_copyable 4
         (snd (try_push trivially_copyable 4 2
                 (snd (run trivially_copyable 4 [Push 1] (RingBuffer_new [0, 0, 0, 0 :: int]))))))
     = Returns (Some 1)"
  by code_simp

section \<open>Calls that do not succeed\<close>

lemma try_push_False: "fst (try_push ops C x rb) = Returns False \<Longrightarrow> snd (try_push ops C x rb) = rb"
  by (auto simp: try_push_def Let_def split: prod.splits if_splits)

lemma try_push_move_False:
  "fst (try_push_move ops C x rb) = Returns False \<Longrightarrow> snd (try_push_move ops C x rb) = (rb, x)"
  by (auto simp: try_push_move_def Let_def split: prod.splits if_splits)

lemma try_pop_None: "fst (try_pop ops C rb) = Returns None \<Longrightarrow> snd (try_pop ops C rb) = rb"
  by (auto simp: try_pop_def Let_def split: prod.splits if_splits option.splits)

lemma try_push_Throws:
  "fst (try_push ops C x rb) = Throws \<Longrightarrow>
   \<exists>s. snd (try_push ops C x rb) = rb\<lparr>buffer := (buffer rb)[unat (tail rb) := s]\<rparr>"
  by (auto simp: try_push_def Let_def split: prod.splits if_splits)

lemma try_push_move_Throws:
  "fst (try_push_move ops C x rb) = Throws \<Longrightarrow>
   \<exists>s. fst (snd (try_push_move ops C x rb)) = rb\<lparr>buffer := (buffer rb)[unat (tail rb) := s]\<rparr>"
  by (auto simp: try_push_move_def Let_def split: prod.splits if_splits)

lemma try_pop_first_move_Throws:
  "\<not> empty_buf rb \<Longrightarrow> unat (head rb) < length (buffer rb) \<Longrightarrow>
   fst (move_construct ops (buffer rb ! unat (head rb))) = None \<Longrightarrow>
   try_pop ops C rb =
     (Throws, rb\<lparr>buffer := (buffer rb)[unat (head rb) := snd (move_construct ops (buffer rb ! unat (head rb)))]\<rparr>)"
  by (auto simp: try_pop_def empty_buf_def Let_def split: prod.splits option.splits)


text \<open>
  C4, as amended. A \<open>try_push\<close> that returns \<open>false\<close> leaves the buffer as it was, and
  the move overload leaves the caller's item as it was; a \<open>try_pop\<close> that returns no value
  leaves the buffer as it was. When the assignment into the slot throws in \<open>try_push\<close>
  (either overload), head and tail are as before, every slot other than slot \<open>tail\<close> is as
  before, and so are the live elements. When the move out of the slot throws in
  \<open>try_pop\<close>, head and tail are as before and every slot other than slot \<open>head\<close> is as
  before.
\<close>

theorem unsuccessful_call_state:
  "(fst (try_push ops C x rb) = Returns False \<longrightarrow> snd (try_push ops C x rb) = rb) \<and>
   (fst (try_push_move ops C x rb) = Returns False \<longrightarrow> snd (try_push_move ops C x rb) = (rb, x)) \<and>
   (fst (try_pop ops C rb) = Returns None \<longrightarrow> snd (try_pop ops C rb) = rb) \<and>
   (fst (try_push ops C x rb) = Throws \<longrightarrow>
      head (snd (try_push ops C x rb)) = head rb \<and> tail (snd (try_push ops C x rb)) = tail rb \<and>
      (\<forall>i. i \<noteq> unat (tail rb) \<longrightarrow> buffer (snd (try_push ops C x rb)) ! i = buffer rb ! i) \<and>
      (valid_capacity C \<and> well_formed C rb \<longrightarrow> live C (snd (try_push ops C x rb)) = live C rb)) \<and>
   (fst (try_push_move ops C x rb) = Throws \<longrightarrow>
      head (fst (snd (try_push_move ops C x rb))) = head rb \<and>
      tail (fst (snd (try_push_move ops C x rb))) = tail rb \<and>
      (\<forall>i. i \<noteq> unat (tail rb) \<longrightarrow> buffer (fst (snd (try_push_move ops C x rb))) ! i = buffer rb ! i) \<and>
      (valid_capacity C \<and> well_formed C rb \<longrightarrow> live C (fst (snd (try_push_move ops C x rb))) = live C rb)) \<and>
   (\<not> empty_buf rb \<and> unat (head rb) < length (buffer rb) \<and>
    fst (move_construct ops (buffer rb ! unat (head rb))) = None \<longrightarrow>
      fst (try_pop ops C rb) = Throws \<and>
      head (snd (try_pop ops C rb)) = head rb \<and> tail (snd (try_pop ops C rb)) = tail rb \<and>
      (\<forall>i. i \<noteq> unat (head rb) \<longrightarrow> buffer (snd (try_pop ops C rb)) ! i = buffer rb ! i))"
proof -
  have 4: "head (snd (try_push ops C x rb)) = head rb \<and> tail (snd (try_push ops C x rb)) = tail rb \<and>
      (\<forall>i. i \<noteq> unat (tail rb) \<longrightarrow> buffer (snd (try_push ops C x rb)) ! i = buffer rb ! i) \<and>
      (valid_capacity C \<and> well_formed C rb \<longrightarrow> live C (snd (try_push ops C x rb)) = live C rb)"
    if "fst (try_push ops C x rb) = Throws"
  proof -
    from try_push_Throws [OF that] obtain s
      where s: "snd (try_push ops C x rb) = rb\<lparr>buffer := (buffer rb)[unat (tail rb) := s]\<rparr>" ..
    show ?thesis unfolding s by (simp add: live_update_tail)
  qed
  have 5: "head (fst (snd (try_push_move ops C x rb))) = head rb \<and>
      tail (fst (snd (try_push_move ops C x rb))) = tail rb \<and>
      (\<forall>i. i \<noteq> unat (tail rb) \<longrightarrow> buffer (fst (snd (try_push_move ops C x rb))) ! i = buffer rb ! i) \<and>
      (valid_capacity C \<and> well_formed C rb \<longrightarrow> live C (fst (snd (try_push_move ops C x rb))) = live C rb)"
    if "fst (try_push_move ops C x rb) = Throws"
  proof -
    from try_push_move_Throws [OF that] obtain s
      where s: "fst (snd (try_push_move ops C x rb)) = rb\<lparr>buffer := (buffer rb)[unat (tail rb) := s]\<rparr>" ..
    show ?thesis unfolding s by (simp add: live_update_tail)
  qed
  have 6: "fst (try_pop ops C rb) = Throws \<and>
      head (snd (try_pop ops C rb)) = head rb \<and> tail (snd (try_pop ops C rb)) = tail rb \<and>
      (\<forall>i. i \<noteq> unat (head rb) \<longrightarrow> buffer (snd (try_pop ops C rb)) ! i = buffer rb ! i)"
    if "\<not> empty_buf rb" "unat (head rb) < length (buffer rb)"
      "fst (move_construct ops (buffer rb ! unat (head rb))) = None"
    unfolding try_pop_first_move_Throws [OF that] by simp
  from try_push_False [of ops C x rb] try_push_move_False [of ops C x rb] try_pop_None [of ops C rb] 4 5 6
  show ?thesis by blast
qed

text \<open>
  A refused push on the full two-slot buffer, a refused pop on the fresh one, a copy of a
  \<open>TestMessage\<close> whose string allocation fails, and a pop of an element whose move
  constructor throws at once.
\<close>

theorem unsuccessful_call_state_witness:
  "fst (try_push trivially_copyable 2 43 full_example) = Returns False \<and>
   snd (try_push trivially_copyable 2 43 full_example) = full_example \<and>
   fst (try_push_move trivially_copyable 2 43 full_example) = Returns False \<and>
   snd (try_push_move trivially_copyable 2 43 full_example) = (full_example, 43) \<and>
   fst (try_pop trivially_copyable 2 (RingBuffer_new [0, 0 :: int])) = Returns None \<and>
   snd (try_pop trivially_copyable 2 (RingBuffer_new [0, 0 :: int])) = RingBuffer_new [0, 0] \<and>
   fst (try_push (test_message 3) 4 (7, ''hello'') (RingBuffer_new (replicate 4 (0, '''')))) = Throws \<and>
   head (snd (try_push (test_message 3) 4 (7, ''hello'') (RingBuffer_new (replicate 4 (0, ''''))))) =
     head (RingBuffer_new (replicate 4 (0 :: int, '''' :: string))) \<and>
   tail (snd (try_push (test_message 3) 4 (7, ''hello'') (RingBuffer_new (replicate 4 (0, ''''))))) =
     tail (RingBuffer_new (replicate 4 (0 :: int, '''' :: string))) \<and>
   fst (try_pop move_budget 4 (snd (run move_budget 4 [Push (5, 0)] (RingBuffer_new (replicate 4 (0, 0))))))
     = Throws \<and>
   head (snd (try_pop move_budget 4 (snd (run move_budget 4 [Push (5, 0)] (RingBuffer_new (replicate 4 (0, 0)))))))
     = head (snd (run move_budget 4 [Push (5, 0)] (RingBuffer_new (replicate 4 (0, 0)))))"
proof -
  have 1: "fst (try_push trivially_copyable 2 43 full_example) = Returns False"
    by code_simp
  have 2: "fst (try_push_move trivially_copyable 2 43 full_example) = Returns False"
    by code_simp
  have 3: "fst (try_pop trivially_copyable 2 (RingBuffer_new [0, 0 :: int])) = Returns None"
    by code_simp
  have 4: "fst (try_push (test_message 3) 4 (7, ''hello'') (RingBuffer_new (replicate 4 (0, '''')))) = Throws"
    by code_simp
  let ?S = "snd (run move_budget 4 [Push (5, 0)] (RingBuffer_new (replicate 4 (0, 0))))"
  have 5: "\<not> empty_buf ?S \<and> unat (head ?S) < length (buffer ?S) \<and>
    fst (move_construct move_budget (buffer ?S ! unat (head ?S))) = None"
    by code_simp
  note a = unsuccessful_call_state [of trivially_copyable 2 43 full_example]
  note b = unsuccessful_call_state [of trivially_copyable 2 43 "RingBuffer_new [0, 0]"]
  note c = unsuccessful_call_state [of "test_message 3" 4 "(7, ''hello'')" "RingBuffer_new (replicate 4 (0, ''''))",
      THEN conjunct2, THEN conjunct2, THEN conjunct2, THEN conjunct1, THEN mp, OF 4]
  note d = unsuccessful_call_state [of move_budget 4 "(5, 0)" ?S,
      THEN conjunct2, THEN conjunct2, THEN conjunct2, THEN conjunct2, THEN conjunct2, THEN mp, OF 5]
  note a1 = a [THEN conjunct1, THEN mp, OF 1]
    and a2 = a [THEN conjunct2, THEN conjunct1, THEN mp, OF 2]
    and b3 = b [THEN conjunct2, THEN conjunct2, THEN conjunct1, THEN mp, OF 3]
    and c1 = c [THEN conjunct1] and c2 = c [THEN conjunct2, THEN conjunct1]
    and d1 = d [THEN conjunct1] and d2 = d [THEN conjunct2, THEN conjunct1]
  from 1 a1 2 a2 3 b3 4 c1 c2 d1 d2 show ?thesis by (intro conjI)
qed

text \<open>
  C4 as stated fails twice. The copy assignment of a \<open>TestMessage\<close> that throws while
  copying the string has already assigned \<open>id\<close>, so slot 0 of the fresh buffer has
  changed. And \<open>try_pop\<close> stores the new head before \<open>return item;\<close> constructs the
  returned \<open>std::optional<T>\<close>: when that move throws, head has already advanced from 0
  to 1.
\<close>

theorem unsuccessful_call_changes_state_counterexample:
  "fst (try_push (test_message 3) 4 (7, ''hello'') (RingBuffer_new (replicate 4 (0, '''')))) = Throws \<and>
   buffer (snd (try_push (test_message 3) 4 (7, ''hello'') (RingBuffer_new (replicate 4 (0, ''''))))) ! 0
     \<noteq> buffer (RingBuffer_new (replicate 4 (0, ''''))) ! 0 \<and>
   fst (try_pop move_budget 4 (snd (run move_budget 4 [Push (5, 1)] (RingBuffer_new (replicate 4 (0, 0))))))
     = Throws \<and>
   head (snd (try_pop move_budget 4 (snd (run move_budget 4 [Push (5, 1)] (RingBuffer_new (replicate 4 (0, 0)))))))
     \<noteq> head (snd (run move_budget 4 [Push (5, 1)] (RingBuffer_new (replicate 4 (0, 0)))))"
  by code_simp

section \<open>Overlapping calls\<close>

text \<open>
  The steps of a call that is not overtaken add up to the call as modelled above.
\<close>

lemma producer_call_copy:
  assumes "producer s = PIdle"
  shows "shared (producer_call ops C False x s) = snd (try_push ops C x (shared s)) \<and>
         producer (producer_call ops C False x s) = PIdle \<and>
         consumer (producer_call ops C False x s) = consumer s \<and>
         sent (producer_call ops C False x s) =
           sent s @ accepted1 (Push x) (PushResult (fst (try_push ops C x (shared s)))) \<and>
         received (producer_call ops C False x s) = received s"
  using assms
  by (simp add: producer_call_def producer_step_def try_push_def Let_def split: prod.split)

lemma producer_call_move:
  assumes "producer s = PIdle"
  shows "shared (producer_call ops C True x s) = fst (snd (try_push_move ops C x (shared s))) \<and>
         producer (producer_call ops C True x s) = PIdle \<and>
         consumer (producer_call ops C True x s) = consumer s \<and>
         sent (producer_call ops C True x s) =
           sent s @ accepted1 (PushMove x) (PushResult (fst (try_push_move ops C x (shared s)))) \<and>
         received (producer_call ops C True x s) = received s"
  using assms
  by (simp add: producer_call_def producer_step_def try_push_move_def Let_def split: prod.split)

lemma consumer_call_pop:
  assumes "consumer s = CIdle"
  shows "shared (consumer_call ops C s) = snd (try_pop ops C (shared s)) \<and>
         consumer (consumer_call ops C s) = CIdle \<and>
         producer (consumer_call ops C s) = producer s \<and>
         received (consumer_call ops C s) =
           received s @ popped1 (PopResult (fst (try_pop ops C (shared s)))) \<and>
         sent (consumer_call ops C s) = sent s"
  using assms
  by (simp add: consumer_call_def consumer_step_def try_pop_def Let_def split: prod.split option.split)

text \<open>
  The steps of both threads keep \<open>threads_inv\<close>.
\<close>

lemma live_tail_advance:
  assumes v: "valid_capacity C" and w: "well_formed C rb" and nf: "(tail rb + 1) AND kIndexMask C \<noteq> head rb"
  shows "live C (rb\<lparr>tail := (tail rb + 1) AND kIndexMask C\<rparr>) = live C rb @ [buffer rb ! unat (tail rb)]"
proof -
  from nf have "\<not> full C rb" by (simp add: full_def)
  from live_push [OF v w this, of "buffer rb ! unat (tail rb)"] show ?thesis by simp
qed

lemma live_head_advance:
  assumes v: "valid_capacity C" and w: "well_formed C rb" and ne: "head rb \<noteq> tail rb"
  shows "live C rb = buffer rb ! unat (head rb) # live C (rb\<lparr>head := (head rb + 1) AND kIndexMask C\<rparr>)"
proof -
  from ne have "\<not> empty_buf rb" by (simp add: empty_buf_def)
  from live_pop [OF v w this, of "buffer rb ! unat (head rb)"] show ?thesis by simp
qed

lemma live_update_head:
  assumes v: "valid_capacity C" and w: "well_formed C rb" and ne: "head rb \<noteq> tail rb"
  shows "tl (live C (rb\<lparr>buffer := (buffer rb)[unat (head rb) := r]\<rparr>)) = tl (live C rb)"
proof -
  let ?rb1 = "rb\<lparr>buffer := (buffer rb)[unat (head rb) := r]\<rparr>"
  from ne have e: "\<not> empty_buf rb" "\<not> empty_buf ?rb1" by (simp_all add: empty_buf_def)
  have w1: "well_formed C ?rb1" using w by (simp add: well_formed_def)
  from live_pop [OF v w e(1), of r] live_pop [OF v w1 e(2), of r] show ?thesis by simp
qed

lemma next_index_inj:
  assumes v: "valid_capacity C" and a: "unat a < unat C" and b: "unat b < unat C"
    and eq: "(a + 1) AND kIndexMask C = (b + 1) AND kIndexMask C"
  shows "a = b"
proof -
  from eq have "unat ((a + 1) AND kIndexMask C) = unat ((b + 1) AND kIndexMask C)" by simp
  then have "(unat a + 1) mod unat C = (unat b + 1) mod unat C"
    by (simp only: next_index_unat [OF v])
  then have "unat a = unat b"
    unfolding succ_mod [OF a] succ_mod [OF b] using a b by (auto split: if_splits)
  then show ?thesis by (simp add: word_unat_eq_iff)
qed

lemma next_index_neq: "valid_capacity C \<Longrightarrow> unat a < unat C \<Longrightarrow> (a + 1) AND kIndexMask C \<noteq> a"
proof
  assume v: "valid_capacity C" and a: "unat a < unat C" and eq: "(a + 1) AND kIndexMask C = a"
  from eq have "unat ((a + 1) AND kIndexMask C) = unat a" by simp
  then have "(unat a + 1) mod unat C = unat a" by (simp only: next_index_unat [OF v])
  then show False unfolding succ_mod [OF a] using valid_capacity_gt1 [OF v] by (auto split: if_splits)
qed

lemma threads_inv_new:
  "valid_capacity C \<Longrightarrow> length slots = unat C \<Longrightarrow> threads_inv C (threads_new slots)"
  by (simp add: threads_inv_def threads_new_def wf_new producer_ok_def consumer_ok_def
      in_flight_def live_new)

lemma consumer_ok_buffer [simp]: "consumer_ok c (rb\<lparr>buffer := b\<rparr>) = consumer_ok c rb"
  by (simp add: consumer_ok_def split: consumer_pc.split)

lemma in_flight_cong: "live C rb' = live C rb \<Longrightarrow> in_flight C c rb' = in_flight C c rb"
  by (cases c) (simp_all add: in_flight_def)

lemma producer_step_inv:
  assumes v: "valid_capacity C" and vs: "value_semantics ops" and inv: "threads_inv C s"
  shows "threads_inv C (producer_step ops C by_move item s)"
proof -
  let ?rb = "shared s"
  from inv have w: "well_formed C ?rb" and nr: "\<not> out_of_range s" and p: "producer_ok C (producer s) ?rb"
    and c: "consumer_ok (consumer s) ?rb" and q: "sent s = received s @ in_flight C (consumer s) ?rb"
    by (simp_all add: threads_inv_def)
  show ?thesis
  proof (cases "producer s")
    case PIdle
    with w nr c q show ?thesis
      by (simp add: producer_step_def threads_inv_def producer_ok_def)
  next
    case (PLoadedTail m x ct)
    with w nr c q p show ?thesis
      by (simp add: producer_step_def threads_inv_def producer_ok_def Let_def)
  next
    case (PChecked m x ct nt)
    with p have ct: "ct = tail ?rb" and nt: "nt = (ct + 1) AND kIndexMask C" "nt \<noteq> head ?rb"
      by (auto simp: producer_ok_def)
    from w have len: "unat (tail ?rb) < length (buffer ?rb)" by (simp add: well_formed_def)
    have asg: "(if m then (case move_assign ops (buffer ?rb ! unat (tail ?rb)) x of
                             (completed, slot, item') \<Rightarrow> (completed, slot))
               else copy_assign ops (buffer ?rb ! unat (tail ?rb)) x) = (True, x)"
      using vs by (simp add: value_semantics_def split_beta)
    let ?rb' = "?rb\<lparr>buffer := (buffer ?rb)[unat (tail ?rb) := x]\<rparr>"
    have step: "producer_step ops C by_move item s = s\<lparr>shared := ?rb', producer := PWritten x nt\<rparr>"
      using len by (simp add: producer_step_def PChecked asg ct)
    have w': "well_formed C ?rb'" using w by (simp add: well_formed_def)
    have l: "live C ?rb' = live C ?rb" by (rule live_update_tail [OF v w])
    have "in_flight C (consumer s) ?rb' = in_flight C (consumer s) ?rb"
      by (rule in_flight_cong [OF l])
    with w' nr c q nt ct len show ?thesis unfolding step
      by (simp add: threads_inv_def producer_ok_def)
  next
    case (PWritten x nt)
    with p have nt: "nt = (tail ?rb + 1) AND kIndexMask C" "nt \<noteq> head ?rb"
      and x: "buffer ?rb ! unat (tail ?rb) = x"
      by (auto simp: producer_ok_def)
    let ?rb' = "?rb\<lparr>tail := nt\<rparr>"
    have step: "producer_step ops C by_move item s = s\<lparr>shared := ?rb', producer := PIdle, sent := sent s @ [x]\<rparr>"
      by (simp add: producer_step_def PWritten)
    have w': "well_formed C ?rb'" using w v by (simp add: well_formed_def nt next_index_less)
    have l: "live C ?rb' = live C ?rb @ [x]"
      using live_tail_advance [OF v w] nt x by simp
    have c': "consumer_ok (consumer s) ?rb'"
      using c nt by (auto simp: consumer_ok_def split: consumer_pc.splits)
    have "in_flight C (consumer s) ?rb' = in_flight C (consumer s) ?rb @ [x]"
    proof (cases "consumer s")
      case (CMoved i ch)
      with c have "head ?rb \<noteq> tail ?rb" by (auto simp: consumer_ok_def)
      then have "live C ?rb \<noteq> []" using live_head_advance [OF v w] by simp
      with CMoved l show ?thesis by (simp add: in_flight_def)
    qed (simp_all add: in_flight_def l)
    with w' nr c' q show ?thesis unfolding step
      by (simp add: threads_inv_def producer_ok_def)
  qed
qed

lemma consumer_step_inv:
  assumes v: "valid_capacity C" and vs: "value_semantics ops" and inv: "threads_inv C s"
  shows "threads_inv C (consumer_step ops C s)"
proof -
  let ?rb = "shared s"
  from inv have w: "well_formed C ?rb" and nr: "\<not> out_of_range s" and p: "producer_ok C (producer s) ?rb"
    and c: "consumer_ok (consumer s) ?rb" and q: "sent s = received s @ in_flight C (consumer s) ?rb"
    by (simp_all add: threads_inv_def)
  from w have hl: "unat (head ?rb) < unat C" and tl: "unat (tail ?rb) < unat C"
    and len: "length (buffer ?rb) = unat C"
    by (simp_all add: well_formed_def)
  show ?thesis
  proof (cases "consumer s")
    case CIdle
    with w nr p q show ?thesis
      by (simp add: consumer_step_def threads_inv_def consumer_ok_def in_flight_def)
  next
    case (CLoadedHead ch)
    with w nr p q c show ?thesis
      by (simp add: consumer_step_def threads_inv_def consumer_ok_def in_flight_def)
  next
    case (CChecked ch)
    with c have ch: "ch = head ?rb" and ne: "head ?rb \<noteq> tail ?rb" by (auto simp: consumer_ok_def)
    let ?item = "buffer ?rb ! unat (head ?rb)"
    let ?rb' = "?rb\<lparr>buffer := (buffer ?rb)[unat (head ?rb) := snd (move_construct ops ?item)]\<rparr>"
    have mc: "fst (move_construct ops ?item) = Some ?item" using vs by (simp add: value_semantics_def)
    have step: "consumer_step ops C s = s\<lparr>shared := ?rb', consumer := CMoved ?item ch\<rparr>"
      using hl len by (simp add: consumer_step_def CChecked ch split_beta mc)
    have w': "well_formed C ?rb'" using w by (simp add: well_formed_def)
    have "live C ?rb = ?item # tl (live C ?rb)"
      using live_head_advance [OF v w ne] by simp
    also have "tl (live C ?rb) = tl (live C ?rb')" by (rule live_update_head [OF v w ne, symmetric])
    finally have l: "in_flight C (CMoved ?item ch) ?rb' = in_flight C (consumer s) ?rb"
      by (simp add: in_flight_def CChecked)
    have hne: "unat (head ?rb) \<noteq> unat (tail ?rb)" using ne by (simp add: word_unat_eq_iff)
    have p': "producer_ok C (producer s) ?rb'"
      using p hne by (cases "producer s") (simp_all add: producer_ok_def)
    from w' nr p' q l ch ne show ?thesis unfolding step
      by (simp add: threads_inv_def consumer_ok_def)
  next
    case (CMoved i ch)
    with c have ch: "ch = head ?rb" and ne: "head ?rb \<noteq> tail ?rb" by (auto simp: consumer_ok_def)
    let ?rb' = "?rb\<lparr>head := (head ?rb + 1) AND kIndexMask C\<rparr>"
    have mc: "fst (move_construct ops i) = Some i" using vs by (simp add: value_semantics_def)
    have step: "consumer_step ops C s = s\<lparr>shared := ?rb', consumer := CIdle, received := received s @ [i]\<rparr>"
      by (simp add: consumer_step_def CMoved ch mc)
    have w': "well_formed C ?rb'" using w v by (simp add: well_formed_def next_index_less)
    have "tl (live C ?rb) = live C ?rb'" using live_head_advance [OF v w ne] by simp
    then have l: "in_flight C (consumer s) ?rb = i # in_flight C CIdle ?rb'"
      by (simp add: in_flight_def CMoved)
    have "(tail ?rb + 1) AND kIndexMask C \<noteq> (head ?rb + 1) AND kIndexMask C"
      using ne next_index_inj [OF v hl tl] by auto
    then have p': "producer_ok C (producer s) ?rb'"
      using p by (cases "producer s") (auto simp: producer_ok_def)
    from w' nr p' q l show ?thesis unfolding step
      by (simp add: threads_inv_def consumer_ok_def)
  qed
qed

lemma interleave_inv:
  assumes "valid_capacity C" and "value_semantics ops"
  shows "threads_inv C s \<Longrightarrow> threads_inv C (interleave ops C ts s)"
proof (induction ts arbitrary: s)
  case Nil
  then show ?case by simp
next
  case (Cons t ts)
  then show ?case
    by (cases t) (simp_all add: producer_step_inv [OF assms] consumer_step_inv [OF assms])
qed

lemma length_in_flight:
  assumes "valid_capacity C" and "threads_inv C s"
  shows "length (in_flight C (consumer s) (shared s)) \<le> unat C - 1"
proof -
  from assms(2) have w: "well_formed C (shared s)" and c: "consumer_ok (consumer s) (shared s)"
    by (simp_all add: threads_inv_def)
  have "length (in_flight C (consumer s) (shared s)) = length (live C (shared s))"
  proof (cases "consumer s")
    case (CMoved i ch)
    with c have "head (shared s) \<noteq> tail (shared s)" by (auto simp: consumer_ok_def)
    then have "live C (shared s) \<noteq> []" using live_head_advance [OF assms(1) w] by simp
    with CMoved show ?thesis by (simp add: in_flight_def)
  qed (simp_all add: in_flight_def)
  with size_le [OF assms(1) w] show ?thesis by (simp add: length_live)
qed

text \<open>
  However the steps of the producer's calls and of the consumer's calls interleave, for
  an element type with value semantics: the values sent are, in order, the values
  received followed by those in flight, of which there are at most \<open>Capacity - 1\<close>; no
  access leaves the array; and when the consumer is idle and the buffer empty, everything
  sent has been received.
\<close>

theorem interleaved_fifo:
  assumes "valid_capacity C" and "value_semantics ops" and "length slots = unat C"
    and "s = interleave ops C ticks (threads_new slots)"
  shows "sent s = received s @ in_flight C (consumer s) (shared s) \<and>
         length (in_flight C (consumer s) (shared s)) \<le> unat C - 1 \<and>
         \<not> out_of_range s \<and>
         (consumer s = CIdle \<and> empty_buf (shared s) \<longrightarrow> received s = sent s)"
proof -
  have "threads_inv C (threads_new slots)" using assms(1,3) by (rule threads_inv_new)
  then have inv: "threads_inv C s" unfolding assms(4) by (rule interleave_inv [OF assms(1,2)])
  then have 1: "sent s = received s @ in_flight C (consumer s) (shared s)" and 3: "\<not> out_of_range s"
    by (simp_all add: threads_inv_def)
  have 4: "received s = sent s" if "consumer s = CIdle" "empty_buf (shared s)"
    using 1 that by (simp add: in_flight_def live_empty)
  from 1 length_in_flight [OF assms(1) inv] 3 4 show ?thesis by blast
qed

text \<open>
  In the overlapping schedule both values arrive, in order, and the buffer is empty at the
  end.
\<close>

theorem interleaved_fifo_witness:
  "valid_capacity 4 \<and> value_semantics (trivially_copyable :: int elem_ops) \<and>
   length [0, 0, 0, 0 :: int] = unat (4::size_t) \<and>
   sent (interleave trivially_copyable 4 overlapping_example (threads_new [0, 0, 0, 0])) = [1, 2] \<and>
   received (interleave trivially_copyable 4 overlapping_example (threads_new [0, 0, 0, 0])) = [1, 2]"
proof -
  have 1: "valid_capacity 4" by (simp add: valid_capacity_def)
  have 2: "value_semantics (trivially_copyable :: int elem_ops)"
    by (rule value_semantics_trivially_copyable)
  have 3: "length [0, 0, 0, 0 :: int] = unat (4::size_t)" by simp
  have 4: "consumer (interleave trivially_copyable 4 overlapping_example (threads_new [0, 0, 0, 0])) = CIdle \<and>
           empty_buf (shared (interleave trivially_copyable 4 overlapping_example (threads_new [0, 0, 0, 0])))"
    by code_simp
  have 5: "sent (interleave trivially_copyable 4 overlapping_example (threads_new [0, 0, 0, 0])) = [1, 2]"
    by code_simp
  note a = interleaved_fifo [OF 1 2 3 refl, of overlapping_example,
      THEN conjunct2, THEN conjunct2, THEN conjunct2, THEN mp, OF 4]
  from 1 2 3 5 a [unfolded 5] show ?thesis by (intro conjI)
qed

end
